theory Spec2Isabelle
  imports Main "HOL-Library.Word"
begin

unbundle bit_operations_syntax

section \<open>Platform types\<close>

text \<open>
  The engine of \<^verbatim>\<open>roll-trickle.c\<close> is embedded function by function. The widths
  of \<^verbatim>\<open>int\<close> and of \<^verbatim>\<open>clock_time_t\<close> are declared outside that file; the model takes
  a platform with a 32-bit \<^verbatim>\<open>int\<close> and a 32-bit unsigned \<^verbatim>\<open>clock_time_t\<close>, so that
  operands of type \<^verbatim>\<open>uint16_t\<close> and \<^verbatim>\<open>int16_t\<close> are promoted to \<^verbatim>\<open>int\<close> without loss
  and clock arithmetic wraps modulo \<open>2 ^ 32\<close>. A value of type \<^verbatim>\<open>int16_t\<close> is kept as
  a 16-bit word and read with \<^const>\<open>sint\<close>.
\<close>

type_synonym uint8_t = "8 word"
type_synonym uint16_t = "16 word"
type_synonym int16_t = "16 word"
type_synonym uint32_t = "32 word"
type_synonym clock_time_t = "32 word"

section \<open>Sequence values and serial number arithmetic\<close>

text \<open>The cast \<^verbatim>\<open>(int16_t)(e)\<close> of a promoted \<^verbatim>\<open>int\<close> expression.\<close>

definition int16_cast :: "int \<Rightarrow> int" where
  "int16_cast x = sint (word_of_int x :: 16 word)"

text \<open>The three comparison macros, on their promoted operands.\<close>

definition SEQ_VAL_IS_EQ :: "int \<Rightarrow> int \<Rightarrow> bool" where
  "SEQ_VAL_IS_EQ i1 i2 \<longleftrightarrow> i1 = i2"

definition SEQ_VAL_IS_LT :: "int \<Rightarrow> int \<Rightarrow> bool" where
  "SEQ_VAL_IS_LT i1 i2 \<longleftrightarrow>
     i1 \<noteq> i2 \<and>
     ((i1 < i2 \<and> int16_cast (i2 - i1) < 0x4000) \<or>
      (i1 > i2 \<and> int16_cast (i1 - i2) > 0x4000))"

definition SEQ_VAL_IS_GT :: "int \<Rightarrow> int \<Rightarrow> bool" where
  "SEQ_VAL_IS_GT i1 i2 \<longleftrightarrow>
     i1 \<noteq> i2 \<and>
     ((i1 < i2 \<and> int16_cast (i2 - i1) > 0x4000) \<or>
      (i1 > i2 \<and> int16_cast (i1 - i2) < 0x4000))"

definition SEQ_VAL_ADD :: "uint16_t \<Rightarrow> uint16_t \<Rightarrow> uint16_t" where
  "SEQ_VAL_ADD s n = word_of_int ((uint s + uint n) mod 0x8000)"

text \<open>
  The circular distance of two 15-bit sequence values, as the specification words it:
  the shorter way round the circle of \<open>0x8000\<close> values.
\<close>

definition circular_distance :: "uint16_t \<Rightarrow> uint16_t \<Rightarrow> int" where
  "circular_distance a b =
     min ((uint a - uint b) mod 0x8000) ((uint b - uint a) mod 0x8000)"

section \<open>Data representation\<close>

text \<open>
  A seed identifier is two bytes (short seeds) or the sixteen bytes of an IPv6 address;
  \<^verbatim>\<open>seed_id_cmp\<close> is \<^verbatim>\<open>memcmp\<close> over the whole of it.
\<close>

type_synonym seed_id_t = "8 word list"
type_synonym uip_ipaddr_t = "8 word list"

definition seed_id_cmp :: "seed_id_t \<Rightarrow> seed_id_t \<Rightarrow> bool" where
  "seed_id_cmp a b \<longleftrightarrow> a = b"

text \<open>The two callbacks that a controller's one-shot \<^verbatim>\<open>ctimer\<close> is armed with.\<close>

datatype callback = Handle_timer | Double_interval

text \<open>
  \<^verbatim>\<open>struct trickle_param\<close>. The field \<open>ct\<close> holds what the last \<^verbatim>\<open>ctimer_set\<close> armed:
  the delay and the callback.
\<close>

record trickle_param =
  i_min :: clock_time_t
  t_start :: clock_time_t
  t_end :: clock_time_t
  t_next :: clock_time_t
  t_last_trigger :: clock_time_t
  ct :: "(clock_time_t \<times> callback) option"
  i_current :: uint8_t
  i_max :: uint8_t
  k :: uint8_t
  t_active :: uint8_t
  t_dwell :: uint8_t
  c :: uint8_t
  inconsistency :: uint8_t

text \<open>\<^verbatim>\<open>struct sliding_window\<close>, with its flag bits.\<close>

record sliding_window =
  seed_id :: seed_id_t
  lower_bound :: int16_t
  upper_bound :: int16_t
  min_listed :: int16_t
  flags :: uint8_t
  count :: uint8_t

definition SLIDING_WINDOW_U_BIT :: uint8_t where "SLIDING_WINDOW_U_BIT = 0x80"
definition SLIDING_WINDOW_M_BIT :: uint8_t where "SLIDING_WINDOW_M_BIT = 0x40"
definition SLIDING_WINDOW_L_BIT :: uint8_t where "SLIDING_WINDOW_L_BIT = 0x20"

definition SLIDING_WINDOW_IS_USED :: "sliding_window \<Rightarrow> bool" where
  "SLIDING_WINDOW_IS_USED w \<longleftrightarrow> flags w AND SLIDING_WINDOW_U_BIT \<noteq> 0"

definition SLIDING_WINDOW_IS_USED_SET :: "sliding_window \<Rightarrow> sliding_window" where
  "SLIDING_WINDOW_IS_USED_SET w = w\<lparr>flags := flags w OR SLIDING_WINDOW_U_BIT\<rparr>"

definition window_free :: "sliding_window \<Rightarrow> sliding_window" where
  "window_free w = w\<lparr>flags := flags w AND NOT SLIDING_WINDOW_U_BIT\<rparr>"

definition SLIDING_WINDOW_LISTED_SET :: "sliding_window \<Rightarrow> sliding_window" where
  "SLIDING_WINDOW_LISTED_SET w = w\<lparr>flags := flags w OR SLIDING_WINDOW_L_BIT\<rparr>"

definition SLIDING_WINDOW_LISTED_CLR :: "sliding_window \<Rightarrow> sliding_window" where
  "SLIDING_WINDOW_LISTED_CLR w = w\<lparr>flags := flags w AND NOT SLIDING_WINDOW_L_BIT\<rparr>"

definition SLIDING_WINDOW_IS_LISTED :: "sliding_window \<Rightarrow> bool" where
  "SLIDING_WINDOW_IS_LISTED w \<longleftrightarrow> flags w AND SLIDING_WINDOW_L_BIT \<noteq> 0"

definition SLIDING_WINDOW_M_SET :: "sliding_window \<Rightarrow> sliding_window" where
  "SLIDING_WINDOW_M_SET w = w\<lparr>flags := flags w OR SLIDING_WINDOW_M_BIT\<rparr>"

definition SLIDING_WINDOW_M_CLR :: "sliding_window \<Rightarrow> sliding_window" where
  "SLIDING_WINDOW_M_CLR w = w\<lparr>flags := flags w AND NOT SLIDING_WINDOW_M_BIT\<rparr>"

text \<open>The parametrization bit of a window; the index into the two controllers.\<close>

definition SLIDING_WINDOW_GET_M :: "sliding_window \<Rightarrow> bool" where
  "SLIDING_WINDOW_GET_M w \<longleftrightarrow> flags w AND SLIDING_WINDOW_M_BIT = SLIDING_WINDOW_M_BIT"

text \<open>
  The IPv6 datagram in \<^verbatim>\<open>uip_buf\<close>, by the fields that the engine reads: the IPv6
  header, the hop-by-hop Trickle option behind it, and the bytes that follow.
\<close>

record uip_datagram =
  srcipaddr :: uip_ipaddr_t
  destipaddr :: uip_ipaddr_t
  proto :: uint8_t
  ttl :: uint8_t
  hbho_type :: uint8_t
  hbho_len :: uint8_t
  hbho_seed_id :: seed_id_t
  hbho_flags :: uint8_t
  hbho_seq_id_lsb :: uint8_t
  payload :: "8 word list"

text \<open>
  \<^verbatim>\<open>struct mcast_packet\<close>. The pointer \<open>sw\<close> is the index of the window in the table
  \<open>windows\<close>; the source reads it from used packets only, so the null pointer of a
  slot that was never filled has no representation of its own. The member
  \<^verbatim>\<open>seed_id\<close> of the short-seed build is never read or written and is left out.
\<close>

record mcast_packet =
  active :: uint32_t
  dwell :: uint32_t
  buff_len :: uint16_t
  seq_val :: uint16_t
  sw :: nat
  pflags :: uint8_t
  buff :: uip_datagram

definition MCAST_PACKET_U_BIT :: uint8_t where "MCAST_PACKET_U_BIT = 0x80"
definition MCAST_PACKET_S_BIT :: uint8_t where "MCAST_PACKET_S_BIT = 0x20"
definition MCAST_PACKET_L_BIT :: uint8_t where "MCAST_PACKET_L_BIT = 0x10"

definition MCAST_PACKET_TTL :: "mcast_packet \<Rightarrow> uint8_t" where
  "MCAST_PACKET_TTL p = ttl (buff p)"

definition MCAST_PACKET_USED_SET :: "mcast_packet \<Rightarrow> mcast_packet" where
  "MCAST_PACKET_USED_SET p = p\<lparr>pflags := pflags p OR MCAST_PACKET_U_BIT\<rparr>"

definition MCAST_PACKET_IS_USED :: "mcast_packet \<Rightarrow> bool" where
  "MCAST_PACKET_IS_USED p \<longleftrightarrow> pflags p AND MCAST_PACKET_U_BIT \<noteq> 0"

definition MCAST_PACKET_MUST_SEND :: "mcast_packet \<Rightarrow> bool" where
  "MCAST_PACKET_MUST_SEND p \<longleftrightarrow> pflags p AND MCAST_PACKET_S_BIT \<noteq> 0"

definition MCAST_PACKET_SEND_SET :: "mcast_packet \<Rightarrow> mcast_packet" where
  "MCAST_PACKET_SEND_SET p = p\<lparr>pflags := pflags p OR MCAST_PACKET_S_BIT\<rparr>"

definition MCAST_PACKET_SEND_CLR :: "mcast_packet \<Rightarrow> mcast_packet" where
  "MCAST_PACKET_SEND_CLR p = p\<lparr>pflags := pflags p AND NOT MCAST_PACKET_S_BIT\<rparr>"

definition MCAST_PACKET_IS_LISTED :: "mcast_packet \<Rightarrow> bool" where
  "MCAST_PACKET_IS_LISTED p \<longleftrightarrow> pflags p AND MCAST_PACKET_L_BIT \<noteq> 0"

definition MCAST_PACKET_LISTED_SET :: "mcast_packet \<Rightarrow> mcast_packet" where
  "MCAST_PACKET_LISTED_SET p = p\<lparr>pflags := pflags p OR MCAST_PACKET_L_BIT\<rparr>"

definition MCAST_PACKET_LISTED_CLR :: "mcast_packet \<Rightarrow> mcast_packet" where
  "MCAST_PACKET_LISTED_CLR p = p\<lparr>pflags := pflags p AND NOT MCAST_PACKET_L_BIT\<rparr>"

definition MCAST_PACKET_FREE :: "mcast_packet \<Rightarrow> mcast_packet" where
  "MCAST_PACKET_FREE p = p\<lparr>pflags := 0\<rparr>"

text \<open>
  One sequence list of a Trickle ICMPv6 message: \<^verbatim>\<open>struct sequence_list_header\<close> and
  the sequence values behind it, each already in host byte order (the value of
  \<^verbatim>\<open>uip_htons(*seq_ptr)\<close>). The pointer walk of the source over the payload is
  modelled on the lists that it delimits.
\<close>

record sequence_list =
  sl_flags :: uint8_t
  seq_len :: uint8_t
  sl_seed_id :: seed_id_t
  seqs :: "uint16_t list"

definition SEQUENCE_LIST_S_BIT :: uint8_t where "SEQUENCE_LIST_S_BIT = 0x80"
definition SEQUENCE_LIST_M_BIT :: uint8_t where "SEQUENCE_LIST_M_BIT = 0x40"
definition SEQUENCE_LIST_RES :: uint8_t where "SEQUENCE_LIST_RES = 0x3F"

definition SEQUENCE_LIST_GET_M :: "sequence_list \<Rightarrow> bool" where
  "SEQUENCE_LIST_GET_M l \<longleftrightarrow> sl_flags l AND SEQUENCE_LIST_M_BIT = SEQUENCE_LIST_M_BIT"

definition SEQUENCE_LIST_GET_S :: "sequence_list \<Rightarrow> bool" where
  "SEQUENCE_LIST_GET_S l \<longleftrightarrow> sl_flags l AND SEQUENCE_LIST_S_BIT = SEQUENCE_LIST_S_BIT"

definition HBHO_OPT_TYPE_TRICKLE :: uint8_t where "HBHO_OPT_TYPE_TRICKLE = 0x0C"
definition HBHO_LEN_LONG_SEED :: uint8_t where "HBHO_LEN_LONG_SEED = 2"
definition HBHO_LEN_SHORT_SEED :: uint8_t where "HBHO_LEN_SHORT_SEED = 4"

definition HBH_GET_M :: "uip_datagram \<Rightarrow> bool" where
  "HBH_GET_M h \<longleftrightarrow> hbho_flags h AND 0x80 = 0x80"

definition HBH_GET_SV_MSB :: "uip_datagram \<Rightarrow> uint8_t" where
  "HBH_GET_SV_MSB h = hbho_flags h AND 0x7F"

text \<open>
  The statistics counters. \<^verbatim>\<open>struct roll_trickle_stats\<close> is declared in a header that
  is not part of the file; the counters are modelled as natural numbers and
  \<^verbatim>\<open>UIP_MCAST6_STATS\<close> is taken as set.
\<close>

record roll_trickle_stats =
  mcast_in_unique :: nat
  mcast_in_all :: nat
  mcast_dropped :: nat
  mcast_bad :: nat
  mcast_fwd :: nat
  icmp_in :: nat
  icmp_bad :: nat
  icmp_out :: nat

text \<open>
  The build-time configuration, which the file takes from headers and from the
  stack: table sizes, seed mode, the constants of the two controllers, and the address
  predicates of uIPv6.
\<close>

record roll_config =
  ROLL_TRICKLE_WINS :: nat
  ROLL_TRICKLE_BUFF_NUM :: nat
  ROLL_TRICKLE_SHORT_SEEDS :: bool
  UIP_CONF_IPV6_CHECKS :: bool
  ROLL_TRICKLE_INFINITE_REDUNDANCY :: uint8_t
  ROLL_TRICKLE_IMIN :: "bool \<Rightarrow> clock_time_t"
  ROLL_TRICKLE_IMAX :: "bool \<Rightarrow> uint8_t"
  ROLL_TRICKLE_K :: "bool \<Rightarrow> uint8_t"
  ROLL_TRICKLE_T_ACTIVE :: "bool \<Rightarrow> uint8_t"
  ROLL_TRICKLE_T_DWELL :: "bool \<Rightarrow> uint8_t"
  ROLL_TRICKLE_ICMP_CODE :: uint8_t
  ROLL_TRICKLE_IP_HOP_LIMIT :: uint8_t
  ROLL_TRICKLE_DGRAM_IN :: uint8_t
  UIP_PROTO_HBHO :: uint8_t
  uip_is_addr_mcast_non_routable :: "uip_ipaddr_t \<Rightarrow> bool"
  uip_is_addr_unspecified :: "uip_ipaddr_t \<Rightarrow> bool"
  uip_is_addr_link_local :: "uip_ipaddr_t \<Rightarrow> bool"
  uip_is_addr_linklocal_allnodes_mcast :: "uip_ipaddr_t \<Rightarrow> bool"
  uip_is_addr_linklocal_allrouters_mcast :: "uip_ipaddr_t \<Rightarrow> bool"

text \<open>
  The static data of the file. The array \<^verbatim>\<open>t[2]\<close> is indexed by the parametrization
  bit. Of the temporary stores only \<^verbatim>\<open>loctpptr\<close> is read before it is written in a
  call, so it alone is part of the state: \<open>None\<close> is the null pointer it holds
  after start-up, \<open>Some m\<close> is \<^verbatim>\<open>&t[m]\<close>.
\<close>

record roll_state =
  t :: "bool \<Rightarrow> trickle_param"
  windows :: "sliding_window list"
  buffered_msgs :: "mcast_packet list"
  loctpptr :: "bool option"
  last_seq :: uint16_t
  roll_trickle_stat :: roll_trickle_stats

text \<open>What a call hands to the stack for transmission.\<close>

datatype event =
  Tcpip_output uip_datagram uint16_t
  | Icmp_output "sequence_list list"

datatype fault = Modulo_by_zero | Null_packet_write | Null_timer_write

section \<open>Trickle timers\<close>

text \<open>\<^verbatim>\<open>TRICKLE_TIME(m, d)\<close>: a left shift in \<^verbatim>\<open>clock_time_t\<close>. The shift agrees with C for
  \<open>d < 32\<close>; C leaves a wider shift undefined.\<close>

definition TRICKLE_TIME :: "clock_time_t \<Rightarrow> uint8_t \<Rightarrow> clock_time_t" where
  "TRICKLE_TIME m d = push_bit (unat d) m"

definition TRICKLE_IMAX :: "trickle_param \<Rightarrow> uint32_t" where
  "TRICKLE_IMAX p = push_bit (unat (i_max p)) (i_min p)"

definition TRICKLE_ACTIVE :: "trickle_param \<Rightarrow> uint32_t" where
  "TRICKLE_ACTIVE p = TRICKLE_IMAX p * ucast (t_active p)"

definition TRICKLE_DWELL :: "trickle_param \<Rightarrow> uint32_t" where
  "TRICKLE_DWELL p = TRICKLE_IMAX p * ucast (t_dwell p)"

definition SUPPRESSION_ENABLED :: "roll_config \<Rightarrow> trickle_param \<Rightarrow> bool" where
  "SUPPRESSION_ENABLED cfg p \<longleftrightarrow> k p \<noteq> ROLL_TRICKLE_INFINITE_REDUNDANCY cfg"

definition SUPPRESSION_DISABLED :: "roll_config \<Rightarrow> trickle_param \<Rightarrow> bool" where
  "SUPPRESSION_DISABLED cfg p \<longleftrightarrow> k p = ROLL_TRICKLE_INFINITE_REDUNDANCY cfg"

text \<open>
  \<^verbatim>\<open>random_interval\<close>. The argument \<open>rnd\<close> is the value that \<^verbatim>\<open>random_rand()\<close>
  returns (an \<^verbatim>\<open>unsigned short\<close>). The remainder operator with a zero right operand
  is undefined in C and is a fault of the model.
\<close>

definition random_interval :: "clock_time_t \<Rightarrow> uint8_t \<Rightarrow> uint16_t \<Rightarrow> fault + clock_time_t" where
  "random_interval imin d rnd =
     (let minv = TRICKLE_TIME (drop_bit 1 imin) d;
          modulus = TRICKLE_TIME imin d - 1 - minv
      in if modulus = 0 then Inl Modulo_by_zero
         else Inr (minv + (ucast rnd mod modulus)))"

text \<open>
  \<^verbatim>\<open>reset_trickle_timer\<close>. \<open>now\<close> is the value of \<^verbatim>\<open>clock_time()\<close>, \<open>rnd\<close> that of
  \<^verbatim>\<open>random_rand()\<close>.
\<close>

definition reset_trickle_timer ::
  "bool \<Rightarrow> clock_time_t \<Rightarrow> uint16_t \<Rightarrow> roll_state \<Rightarrow> fault + roll_state" where
  "reset_trickle_timer index now rnd s =
     (let p0 = t s index;
          p1 = p0\<lparr>t_start := now\<rparr>;
          p2 = p1\<lparr>t_end := t_start p1 + i_min p1\<rparr>;
          p3 = p2\<lparr>i_current := 0\<rparr>;
          p4 = p3\<lparr>c := 0\<rparr>
      in case random_interval (i_min p4) (i_current p4) rnd of
           Inl f \<Rightarrow> Inl f
         | Inr nxt \<Rightarrow>
             Inr (s\<lparr>t := (t s)(index := p4\<lparr>t_next := nxt, ct := Some (nxt, Handle_timer)\<rparr>)\<rparr>))"

text \<open>
  \<^verbatim>\<open>double_interval\<close>, the callback at the end of an interval. The offset is an
  \<^verbatim>\<open>int16_t\<close>; in the comparison and the subtraction it is converted to
  \<^verbatim>\<open>clock_time_t\<close> with sign extension.
\<close>

definition double_interval ::
  "bool \<Rightarrow> clock_time_t \<Rightarrow> uint16_t \<Rightarrow> roll_state \<Rightarrow> fault + roll_state" where
  "double_interval m now rnd s =
     (let p0 = t s m;
          offset = (ucast (now - t_end p0) :: int16_t);
          p1 = (if i_current p0 < i_max p0 then p0\<lparr>i_current := i_current p0 + 1\<rparr> else p0);
          p2 = p1\<lparr>t_start := t_end p1\<rparr>;
          p3 = p2\<lparr>t_end := t_start p2 + push_bit (unat (i_current p2)) (i_min p2)\<rparr>
      in case random_interval (i_min p3) (i_current p3) rnd of
           Inl f \<Rightarrow> Inl f
         | Inr nxt0 \<Rightarrow>
             (let off = (scast offset :: clock_time_t);
                  nxt = (if nxt0 > off then nxt0 - off else 0)
              in Inr (s\<lparr>t := (t s)(m := p3\<lparr>t_next := nxt, ct := Some (nxt, Handle_timer)\<rparr>)\<rparr>)))"

section \<open>Sliding windows and packet buffers\<close>

text \<open>
  Every table scan of the source runs from the last slot down to the first. A scan is
  a primitive recursion on the number of slots still to visit: \<open>Suc i\<close> visits slot
  \<open>i\<close> and goes on with \<open>i\<close>.
\<close>

primrec window_allocate_from :: "nat \<Rightarrow> sliding_window list \<Rightarrow> (nat \<times> sliding_window list) option" where
  "window_allocate_from 0 ws = None"
| "window_allocate_from (Suc i) ws =
     (if \<not> SLIDING_WINDOW_IS_USED (ws ! i)
      then Some (i, ws[i := (ws ! i)\<lparr>lower_bound := - 1, upper_bound := - 1,
                                     min_listed := - 1, count := 0\<rparr>])
      else window_allocate_from i ws)"

definition window_allocate :: "roll_state \<Rightarrow> nat option \<times> roll_state" where
  "window_allocate s =
     (case window_allocate_from (length (windows s)) (windows s) of
        None \<Rightarrow> (None, s)
      | Some (i, ws) \<Rightarrow> (Some i, s\<lparr>windows := ws\<rparr>))"

primrec window_lookup_from :: "nat \<Rightarrow> sliding_window list \<Rightarrow> seed_id_t \<Rightarrow> bool \<Rightarrow> nat option" where
  "window_lookup_from 0 ws sd m = None"
| "window_lookup_from (Suc i) ws sd m =
     (if seed_id_cmp sd (seed_id (ws ! i)) \<and> SLIDING_WINDOW_GET_M (ws ! i) = m
      then Some i
      else window_lookup_from i ws sd m)"

definition window_lookup :: "roll_state \<Rightarrow> seed_id_t \<Rightarrow> bool \<Rightarrow> nat option" where
  "window_lookup s sd m = window_lookup_from (length (windows s)) (windows s) sd m"

text \<open>
  \<^verbatim>\<open>window_update_bounds\<close>: the first loop sets every lower bound to \<open>-1\<close>; the second
  visits the packets and moves the bounds of the window of each used one.
\<close>

definition update_bounds_packet :: "mcast_packet \<Rightarrow> sliding_window list \<Rightarrow> sliding_window list" where
  "update_bounds_packet p ws =
     (if MCAST_PACKET_IS_USED p then
        (let w0 = ws ! sw p;
             w1 = (if sint (lower_bound w0) < 0 \<or>
                      SEQ_VAL_IS_LT (uint (seq_val p)) (sint (lower_bound w0))
                   then w0\<lparr>lower_bound := seq_val p\<rparr> else w0);
             w2 = (if sint (upper_bound w1) < 0 \<or>
                      SEQ_VAL_IS_GT (uint (seq_val p)) (sint (upper_bound w1))
                   then w1\<lparr>upper_bound := seq_val p\<rparr> else w1)
         in ws[sw p := w2])
      else ws)"

primrec update_bounds_from :: "nat \<Rightarrow> mcast_packet list \<Rightarrow> sliding_window list \<Rightarrow> sliding_window list" where
  "update_bounds_from 0 ps ws = ws"
| "update_bounds_from (Suc j) ps ws = update_bounds_from j ps (update_bounds_packet (ps ! j) ws)"

definition window_update_bounds :: "roll_state \<Rightarrow> roll_state" where
  "window_update_bounds s =
     s\<lparr>windows := update_bounds_from (length (buffered_msgs s)) (buffered_msgs s)
                     (map (\<lambda>w. w\<lparr>lower_bound := - 1\<rparr>) (windows s))\<rparr>"

text \<open>
  \<^verbatim>\<open>buffer_reclaim\<close>. \<open>reclaim_largest\<close> is the first loop, started with
  \<^verbatim>\<open>largest = windows\<close> (slot 0); \<open>reclaim_find\<close> is the second.
\<close>

primrec reclaim_largest :: "nat \<Rightarrow> sliding_window list \<Rightarrow> nat \<Rightarrow> nat" where
  "reclaim_largest 0 ws largest = largest"
| "reclaim_largest (Suc i) ws largest =
     reclaim_largest i ws (if count (ws ! i) > count (ws ! largest) then i else largest)"

primrec reclaim_find :: "nat \<Rightarrow> mcast_packet list \<Rightarrow> nat \<Rightarrow> sliding_window \<Rightarrow> nat option" where
  "reclaim_find 0 ps largest w = None"
| "reclaim_find (Suc j) ps largest w =
     (if MCAST_PACKET_IS_USED (ps ! j) \<and> sw (ps ! j) = largest \<and>
         SEQ_VAL_IS_EQ (uint (seq_val (ps ! j))) (sint (lower_bound w))
      then Some j
      else reclaim_find j ps largest w)"

definition buffer_reclaim :: "roll_state \<Rightarrow> nat option \<times> roll_state" where
  "buffer_reclaim s =
     (let largest = reclaim_largest (length (windows s)) (windows s) 0;
          w = windows s ! largest
      in if count w = 1 then (None, s)
         else (case reclaim_find (length (buffered_msgs s)) (buffered_msgs s) largest w of
                 None \<Rightarrow> (None, s)
               | Some rv \<Rightarrow>
                   (Some rv,
                    window_update_bounds
                      (s\<lparr>buffered_msgs := (buffered_msgs s)[rv := MCAST_PACKET_FREE (buffered_msgs s ! rv)],
                         windows := (windows s)[largest := w\<lparr>count := count w - 1\<rparr>]\<rparr>))))"

primrec buffer_allocate_from :: "nat \<Rightarrow> mcast_packet list \<Rightarrow> nat option" where
  "buffer_allocate_from 0 ps = None"
| "buffer_allocate_from (Suc j) ps =
     (if \<not> MCAST_PACKET_IS_USED (ps ! j) then Some j else buffer_allocate_from j ps)"

definition buffer_allocate :: "roll_state \<Rightarrow> nat option" where
  "buffer_allocate s = buffer_allocate_from (length (buffered_msgs s)) (buffered_msgs s)"

section \<open>The periodic pass\<close>

text \<open>
  \<^verbatim>\<open>icmp_output\<close>: one sequence list for every used window with a non-zero count,
  carrying the sequence values of the used packets of that window. The event is what
  \<^verbatim>\<open>tcpip_ipv6_output\<close> is called with.
\<close>

primrec icmp_output_seqs :: "nat \<Rightarrow> mcast_packet list \<Rightarrow> nat \<Rightarrow> uint16_t list" where
  "icmp_output_seqs 0 ps i = []"
| "icmp_output_seqs (Suc j) ps i =
     (if MCAST_PACKET_IS_USED (ps ! j) \<and> sw (ps ! j) = i
      then seq_val (ps ! j) # icmp_output_seqs j ps i
      else icmp_output_seqs j ps i)"

primrec icmp_output_lists :: "roll_config \<Rightarrow> nat \<Rightarrow> roll_state \<Rightarrow> sequence_list list" where
  "icmp_output_lists cfg 0 s = []"
| "icmp_output_lists cfg (Suc i) s =
     (let w = windows s ! i
      in if SLIDING_WINDOW_IS_USED w \<and> count w > 0
         then \<lparr>sl_flags = (if ROLL_TRICKLE_SHORT_SEEDS cfg then SEQUENCE_LIST_S_BIT else 0) OR
                           (if SLIDING_WINDOW_GET_M w then SEQUENCE_LIST_M_BIT else 0),
               seq_len = count w,
               sl_seed_id = seed_id w,
               seqs = icmp_output_seqs (length (buffered_msgs s)) (buffered_msgs s) i\<rparr>
              # icmp_output_lists cfg i s
         else icmp_output_lists cfg i s)"

definition icmp_output :: "roll_config \<Rightarrow> roll_state \<Rightarrow> event \<times> roll_state" where
  "icmp_output cfg s =
     (Icmp_output (icmp_output_lists cfg (length (windows s)) s),
      s\<lparr>roll_trickle_stat := (roll_trickle_stat s)\<lparr>icmp_out := icmp_out (roll_trickle_stat s) + 1\<rparr>\<rparr>)"

text \<open>
  The body of the loop of \<^verbatim>\<open>handle_timer\<close> over the packet slots, for slot \<open>j\<close>. The
  events sent so far are threaded along with the state.
\<close>

definition handle_packet ::
  "roll_config \<Rightarrow> bool \<Rightarrow> clock_time_t \<Rightarrow> clock_time_t \<Rightarrow> nat \<Rightarrow>
   event list \<times> roll_state \<Rightarrow> event list \<times> roll_state" where
  "handle_packet cfg m diff_last diff_start j es =
     (let evs = fst es; s = snd es; param = t s m; p0 = buffered_msgs s ! j
      in if MCAST_PACKET_IS_USED p0 \<and> SLIDING_WINDOW_GET_M (windows s ! sw p0) = m then
           (let p1 = (if active p0 = 0
                      then p0\<lparr>active := active p0 + diff_start, dwell := dwell p0 + diff_start\<rparr>
                      else p0\<lparr>active := active p0 + diff_last, dwell := dwell p0 + diff_last\<rparr>)
            in if dwell p1 > TRICKLE_DWELL param then
                 (let w0 = windows s ! sw p1;
                      w1 = w0\<lparr>count := count w0 - 1\<rparr>;
                      w2 = (if count w1 = 0 then window_free w1 else w1)
                  in (evs, s\<lparr>windows := (windows s)[sw p1 := w2],
                              buffered_msgs := (buffered_msgs s)[j := MCAST_PACKET_FREE p1]\<rparr>))
               else if MCAST_PACKET_TTL p1 > 0 \<and>
                       ((SUPPRESSION_ENABLED cfg param \<and> MCAST_PACKET_MUST_SEND p1) \<or>
                        (SUPPRESSION_DISABLED cfg param \<and> active p1 < TRICKLE_ACTIVE param)) then
                 (evs @ [Tcpip_output (buff p1) (buff_len p1)],
                  s\<lparr>buffered_msgs := (buffered_msgs s)[j := MCAST_PACKET_SEND_CLR p1],
                    roll_trickle_stat :=
                      (roll_trickle_stat s)\<lparr>mcast_fwd := mcast_fwd (roll_trickle_stat s) + 1\<rparr>\<rparr>)
               else (evs, s\<lparr>buffered_msgs := (buffered_msgs s)[j := p1]\<rparr>))
         else (evs, s))"

primrec handle_packets_from ::
  "roll_config \<Rightarrow> bool \<Rightarrow> clock_time_t \<Rightarrow> clock_time_t \<Rightarrow> nat \<Rightarrow>
   event list \<times> roll_state \<Rightarrow> event list \<times> roll_state" where
  "handle_packets_from cfg m diff_last diff_start 0 es = es"
| "handle_packets_from cfg m diff_last diff_start (Suc j) es =
     handle_packets_from cfg m diff_last diff_start j
       (handle_packet cfg m diff_last diff_start j es)"

text \<open>The argument of the callback: the address of one of the two controllers, or not.\<close>

datatype timer_ptr = Timer bool | Other_ptr

text \<open>
  \<^verbatim>\<open>handle_timer\<close>. \<open>ready\<close> says whether \<^verbatim>\<open>uip_ds6_get_link_local(ADDR_PREFERRED)\<close>
  is non-null; \<open>now\<close> is the value of the first \<^verbatim>\<open>clock_time()\<close> of the path taken and
  \<open>now'\<close> that of the one after the pass; \<open>rnd\<close> is the value of \<^verbatim>\<open>random_rand()\<close>.
  The result carries the transmissions of the call in their order. The body is cut
  in three: the loop over the buffered messages, the control message, and the part
  from \<^verbatim>\<open>param->inconsistency = 0\<close> to the end.
\<close>

definition handle_timer_messages ::
  "roll_config \<Rightarrow> bool \<Rightarrow> clock_time_t \<Rightarrow> roll_state \<Rightarrow> event list \<times> roll_state" where
  "handle_timer_messages cfg m now s =
     (let p0 = (t s m)\<lparr>t_next := now\<rparr>;
          diff_last = t_next p0 - t_last_trigger p0;
          diff_start = t_next p0 - t_start p0;
          s1 = s\<lparr>t := (t s)(m := p0\<lparr>t_last_trigger := t_next p0\<rparr>)\<rparr>
      in handle_packets_from cfg m diff_last diff_start (length (buffered_msgs s1)) ([], s1))"

definition handle_timer_icmp ::
  "roll_config \<Rightarrow> bool \<Rightarrow> event list \<times> roll_state \<Rightarrow> event list \<times> roll_state" where
  "handle_timer_icmp cfg m es =
     (if SUPPRESSION_ENABLED cfg (t (snd es) m) \<and> c (t (snd es) m) < k (t (snd es) m)
      then (fst es @ [fst (icmp_output cfg (snd es))], snd (icmp_output cfg (snd es)))
      else es)"

definition handle_timer_done :: "bool \<Rightarrow> clock_time_t \<Rightarrow> roll_state \<Rightarrow> roll_state" where
  "handle_timer_done m now' s3 =
     (let s4 = s3\<lparr>t := (t s3)(m := (t s3 m)\<lparr>inconsistency := 0, c := 0\<rparr>)\<rparr>;
          s5 = window_update_bounds s4;
          p5 = (t s5 m)\<lparr>t_next := now'\<rparr>;
          p6 = (if t_next p5 \<ge> t_end p5 then p5\<lparr>t_next := 0\<rparr>
                else p5\<lparr>t_next := t_end p5 - t_next p5\<rparr>)
      in s5\<lparr>t := (t s5)(m := p6\<lparr>ct := Some (t_next p6, Double_interval)\<rparr>)\<rparr>)"

definition handle_timer ::
  "roll_config \<Rightarrow> timer_ptr \<Rightarrow> bool \<Rightarrow> clock_time_t \<Rightarrow> clock_time_t \<Rightarrow> uint16_t \<Rightarrow>
   roll_state \<Rightarrow> fault + (event list \<times> roll_state)" where
  "handle_timer cfg ptr ready now now' rnd s =
     (case ptr of
        Other_ptr \<Rightarrow> Inr ([], s)
      | Timer m \<Rightarrow>
          if \<not> ready then
            (case reset_trickle_timer m now rnd s of
               Inl f \<Rightarrow> Inl f
             | Inr s' \<Rightarrow> Inr ([], s'))
          else
            (let es3 = handle_timer_icmp cfg m (handle_timer_messages cfg m now s)
             in Inr (fst es3, handle_timer_done m now' (snd es3))))"

section \<open>Admission of datagrams\<close>

text \<open>The store \<^verbatim>\<open>t[m].inconsistency = 1\<close>.\<close>

definition set_inconsistency :: "bool \<Rightarrow> roll_state \<Rightarrow> roll_state" where
  "set_inconsistency m s = s\<lparr>t := (t s)(m := (t s m)\<lparr>inconsistency := 1\<rparr>)\<rparr>"

text \<open>The header checks at the head of \<^verbatim>\<open>roll_trickle_accept\<close>: true when one of
  them rejects the datagram as bad.\<close>

definition accept_bad :: "roll_config \<Rightarrow> uip_datagram \<Rightarrow> bool" where
  "accept_bad cfg dg \<longleftrightarrow>
     (UIP_CONF_IPV6_CHECKS cfg \<and> uip_is_addr_mcast_non_routable cfg (destipaddr dg)) \<or>
     (UIP_CONF_IPV6_CHECKS cfg \<and> uip_is_addr_unspecified cfg (srcipaddr dg)) \<or>
     proto dg \<noteq> UIP_PROTO_HBHO cfg \<or>
     hbho_type dg \<noteq> HBHO_OPT_TYPE_TRICKLE \<or>
     (if ROLL_TRICKLE_SHORT_SEEDS cfg then hbho_len dg \<noteq> HBHO_LEN_SHORT_SEED
      else hbho_len dg \<noteq> HBHO_LEN_LONG_SEED)"

definition STATS_ADD_mcast_bad :: "roll_state \<Rightarrow> roll_state" where
  "STATS_ADD_mcast_bad s =
     s\<lparr>roll_trickle_stat := (roll_trickle_stat s)\<lparr>mcast_bad := mcast_bad (roll_trickle_stat s) + 1\<rparr>\<rparr>"

definition STATS_ADD_mcast_dropped :: "roll_state \<Rightarrow> roll_state" where
  "STATS_ADD_mcast_dropped s =
     s\<lparr>roll_trickle_stat :=
         (roll_trickle_stat s)\<lparr>mcast_dropped := mcast_dropped (roll_trickle_stat s) + 1\<rparr>\<rparr>"

definition STATS_ADD_mcast_in_all :: "roll_state \<Rightarrow> roll_state" where
  "STATS_ADD_mcast_in_all s =
     s\<lparr>roll_trickle_stat :=
         (roll_trickle_stat s)\<lparr>mcast_in_all := mcast_in_all (roll_trickle_stat s) + 1\<rparr>\<rparr>"

definition STATS_ADD_mcast_in_unique :: "roll_state \<Rightarrow> roll_state" where
  "STATS_ADD_mcast_in_unique s =
     s\<lparr>roll_trickle_stat :=
         (roll_trickle_stat s)\<lparr>mcast_in_unique := mcast_in_unique (roll_trickle_stat s) + 1\<rparr>\<rparr>"

definition STATS_ADD_icmp_bad :: "roll_state \<Rightarrow> roll_state" where
  "STATS_ADD_icmp_bad s =
     s\<lparr>roll_trickle_stat := (roll_trickle_stat s)\<lparr>icmp_bad := icmp_bad (roll_trickle_stat s) + 1\<rparr>\<rparr>"

definition STATS_ADD_icmp_in :: "roll_state \<Rightarrow> roll_state" where
  "STATS_ADD_icmp_in s =
     s\<lparr>roll_trickle_stat := (roll_trickle_stat s)\<lparr>icmp_in := icmp_in (roll_trickle_stat s) + 1\<rparr>\<rparr>"

text \<open>The 15-bit sequence value of the option: the low byte, and seven bits above it.\<close>

definition hbho_seq_val :: "uip_datagram \<Rightarrow> uint16_t" where
  "hbho_seq_val dg = ucast (hbho_seq_id_lsb dg) OR push_bit 8 (ucast (HBH_GET_SV_MSB dg))"

text \<open>The scan of \<^verbatim>\<open>roll_trickle_accept\<close> for a buffered copy of the datagram.\<close>

primrec accept_seen_from ::
  "nat \<Rightarrow> mcast_packet list \<Rightarrow> sliding_window list \<Rightarrow> nat \<Rightarrow> bool \<Rightarrow> uint16_t \<Rightarrow> bool" where
  "accept_seen_from 0 ps ws i m sv = False"
| "accept_seen_from (Suc j) ps ws i m sv =
     (if MCAST_PACKET_IS_USED (ps ! j) \<and> sw (ps ! j) = i \<and>
         SLIDING_WINDOW_GET_M (ws ! sw (ps ! j)) = m \<and>
         SEQ_VAL_IS_EQ (uint sv) (uint (seq_val (ps ! j)))
      then True
      else accept_seen_from j ps ws i m sv)"

text \<open>
  What the accepting part of \<^verbatim>\<open>roll_trickle_accept\<close> does to the window: parametrization
  bit, used bit, seed, bounds and count.
\<close>

definition accept_window :: "seed_id_t \<Rightarrow> bool \<Rightarrow> uint16_t \<Rightarrow> sliding_window \<Rightarrow> sliding_window" where
  "accept_window sd m sv w0 =
     (let w1 = SLIDING_WINDOW_M_CLR w0;
          w2 = (if m then SLIDING_WINDOW_M_SET w1 else w1);
          w3 = SLIDING_WINDOW_IS_USED_SET w2;
          w4 = w3\<lparr>seed_id := sd\<rparr>;
          w5 = (if count w4 = 0 then w4\<lparr>lower_bound := sv\<rparr> else w4);
          w6 = (if count w5 = 0 \<or> SEQ_VAL_IS_GT (uint sv) (sint (upper_bound w5))
                then w5\<lparr>upper_bound := sv\<rparr> else w5)
      in w6\<lparr>count := count w6 + 1\<rparr>)"

text \<open>What it stores in the packet slot: the slot is zeroed, then filled.\<close>

definition accept_packet ::
  "roll_config \<Rightarrow> uint8_t \<Rightarrow> uip_datagram \<Rightarrow> uint16_t \<Rightarrow> nat \<Rightarrow> uint16_t \<Rightarrow> mcast_packet" where
  "accept_packet cfg inp dg uip_len i sv =
     (let p0 = \<lparr>active = 0, dwell = 0, buff_len = uip_len, seq_val = sv, sw = i,
                pflags = 0, buff = dg\<rparr>;
          p1 = MCAST_PACKET_USED_SET p0
      in if inp = ROLL_TRICKLE_DGRAM_IN cfg
         then (let p2 = MCAST_PACKET_SEND_SET p1
               in p2\<lparr>buff := (buff p2)\<lparr>ttl := ttl (buff p2) - 1\<rparr>\<rparr>)
         else p1)"

text \<open>
  \<^verbatim>\<open>roll_trickle_accept\<close>. \<open>dg\<close> and \<open>uip_len\<close> are the datagram in \<^verbatim>\<open>uip_buf\<close> and its
  length; \<open>now\<close> and \<open>rnd\<close> are the clock and the random number that the timer reset
  reads. The result is the return value and the state. When neither a slot nor a
  reclaimed slot is there and the window holds packets, the source runs on into the
  accepting part with a null \<^verbatim>\<open>locmpptr\<close>; the \<^verbatim>\<open>memset\<close> through it is the fault
  \<open>Null_packet_write\<close>. The body is cut in parts: \<open>accept_old\<close> is the test for a
  value that is too old or was seen before, \<open>accept_buffer\<close> the allocation of a slot,
  \<open>accept_new\<close> the part from \<^verbatim>\<open>New message\<close> on, and \<open>accept_store\<close> the accepting part
  at its end.
\<close>

definition accept_old :: "nat option \<Rightarrow> bool \<Rightarrow> uint16_t \<Rightarrow> roll_state \<Rightarrow> bool" where
  "accept_old found m sv s1 \<longleftrightarrow>
     (case found of
        None \<Rightarrow> False
      | Some i \<Rightarrow>
          SEQ_VAL_IS_LT (uint sv) (sint (lower_bound (windows s1 ! i))) \<or>
          accept_seen_from (length (buffered_msgs s1)) (buffered_msgs s1) (windows s1) i m sv)"

definition accept_buffer :: "roll_state \<Rightarrow> nat option \<times> roll_state" where
  "accept_buffer s2 =
     (case buffer_allocate s2 of
        None \<Rightarrow> buffer_reclaim s2
      | Some j \<Rightarrow> (Some j, s2))"

definition accept_store ::
  "roll_config \<Rightarrow> uint8_t \<Rightarrow> uip_datagram \<Rightarrow> uint16_t \<Rightarrow> clock_time_t \<Rightarrow> uint16_t \<Rightarrow>
   seed_id_t \<Rightarrow> bool \<Rightarrow> uint16_t \<Rightarrow> nat \<Rightarrow> nat option \<Rightarrow> roll_state \<Rightarrow>
   fault + (uint8_t \<times> roll_state)" where
  "accept_store cfg inp dg uip_len now rnd seed m sv i slot s3 =
     (let s4 = (if inp = ROLL_TRICKLE_DGRAM_IN cfg then STATS_ADD_mcast_in_unique s3 else s3);
          s5 = s4\<lparr>windows := (windows s4)[i := accept_window seed m sv (windows s4 ! i)]\<rparr>
      in case slot of
           None \<Rightarrow> Inl Null_packet_write
         | Some j \<Rightarrow>
             (let s6 = s5\<lparr>buffered_msgs :=
                            (buffered_msgs s5)[j := accept_packet cfg inp dg uip_len i sv]\<rparr>;
                  s7 = set_inconsistency m s6
              in case reset_trickle_timer m now rnd s7 of
                   Inl f \<Rightarrow> Inl f
                 | Inr s8 \<Rightarrow> Inr (1, s8)))"

definition accept_new ::
  "roll_config \<Rightarrow> uint8_t \<Rightarrow> uip_datagram \<Rightarrow> uint16_t \<Rightarrow> clock_time_t \<Rightarrow> uint16_t \<Rightarrow>
   seed_id_t \<Rightarrow> bool \<Rightarrow> uint16_t \<Rightarrow> nat option \<Rightarrow> roll_state \<Rightarrow>
   fault + (uint8_t \<times> roll_state)" where
  "accept_new cfg inp dg uip_len now rnd seed m sv found s1 =
     (let wa = (case found of None \<Rightarrow> window_allocate s1 | Some i \<Rightarrow> (Some i, s1))
      in case fst wa of
           None \<Rightarrow> Inr (0, STATS_ADD_mcast_dropped (snd wa))
         | Some i \<Rightarrow>
             (let ba = accept_buffer (snd wa);
                  s3 = snd ba
              in if fst ba = None \<and> count (windows s3 ! i) = 0
                 then Inr (0, STATS_ADD_mcast_dropped
                                (s3\<lparr>windows := (windows s3)[i := window_free (windows s3 ! i)]\<rparr>))
                 else accept_store cfg inp dg uip_len now rnd seed m sv i (fst ba) s3))"

definition roll_trickle_accept ::
  "roll_config \<Rightarrow> uint8_t \<Rightarrow> uip_datagram \<Rightarrow> uint16_t \<Rightarrow> clock_time_t \<Rightarrow> uint16_t \<Rightarrow>
   roll_state \<Rightarrow> fault + (uint8_t \<times> roll_state)" where
  "roll_trickle_accept cfg inp dg uip_len now rnd s0 =
     (if accept_bad cfg dg then Inr (0, STATS_ADD_mcast_bad s0)
      else
        (let s1 = (if inp = ROLL_TRICKLE_DGRAM_IN cfg then STATS_ADD_mcast_in_all s0 else s0);
             seed = (if ROLL_TRICKLE_SHORT_SEEDS cfg then hbho_seed_id dg else srcipaddr dg);
             m = HBH_GET_M dg;
             found = window_lookup s1 seed m;
             sv = hbho_seq_val dg
         in if accept_old found m sv s1 then Inr (0, STATS_ADD_mcast_dropped s1)
            else accept_new cfg inp dg uip_len now rnd seed m sv found s1))"

section \<open>Control messages\<close>

text \<open>The header checks at the head of \<^verbatim>\<open>roll_trickle_icmp_input\<close>; \<open>icode\<close> is the
  code of the ICMPv6 header.\<close>

definition icmp_input_bad :: "roll_config \<Rightarrow> uip_datagram \<Rightarrow> uint8_t \<Rightarrow> bool" where
  "icmp_input_bad cfg dg icode \<longleftrightarrow>
     UIP_CONF_IPV6_CHECKS cfg \<and>
     (\<not> uip_is_addr_link_local cfg (srcipaddr dg) \<or>
      (\<not> uip_is_addr_linklocal_allnodes_mcast cfg (destipaddr dg) \<and>
       \<not> uip_is_addr_linklocal_allrouters_mcast cfg (destipaddr dg)) \<or>
      icode \<noteq> ROLL_TRICKLE_ICMP_CODE cfg \<or>
      ttl dg \<noteq> ROLL_TRICKLE_IP_HOP_LIMIT cfg)"

text \<open>The search of the buffer for a used packet of window \<open>i\<close> with the advertised
  value.\<close>

primrec icmp_find_seq :: "nat \<Rightarrow> mcast_packet list \<Rightarrow> nat \<Rightarrow> uint16_t \<Rightarrow> nat option" where
  "icmp_find_seq 0 ps i val = None"
| "icmp_find_seq (Suc j) ps i val =
     (if MCAST_PACKET_IS_USED (ps ! j) \<and> sw (ps ! j) = i \<and>
         SEQ_VAL_IS_EQ (uint (seq_val (ps ! j))) (uint val)
      then Some j
      else icmp_find_seq j ps i val)"

text \<open>The body of the loop over the advertised values of one sequence list, for the
  window \<open>i\<close> that was found and the controller \<open>m\<close> that \<^verbatim>\<open>loctpptr\<close> points to.\<close>

definition icmp_check_seq :: "bool \<Rightarrow> nat \<Rightarrow> uint16_t \<Rightarrow> roll_state \<Rightarrow> roll_state" where
  "icmp_check_seq m i val s0 =
     (let w = windows s0 ! i;
          s1 = (if SEQ_VAL_IS_GT (uint val) (sint (upper_bound w))
                then set_inconsistency m s0 else s0)
      in if (SEQ_VAL_IS_LT (uint val) (sint (upper_bound w)) \<or>
             SEQ_VAL_IS_EQ (uint val) (sint (upper_bound w))) \<and>
            (SEQ_VAL_IS_GT (uint val) (sint (lower_bound w)) \<or>
             SEQ_VAL_IS_EQ (uint val) (sint (lower_bound w)))
         then (case icmp_find_seq (length (buffered_msgs s1)) (buffered_msgs s1) i val of
                 Some j \<Rightarrow>
                   s1\<lparr>buffered_msgs :=
                        (buffered_msgs s1)[j := MCAST_PACKET_LISTED_SET (buffered_msgs s1 ! j)],
                      windows :=
                        (windows s1)[i := (if sint (min_listed w) = - 1 \<or>
                                              SEQ_VAL_IS_LT (uint val) (sint (min_listed w))
                                           then w\<lparr>min_listed := val\<rparr> else w)]\<rparr>
               | None \<Rightarrow> set_inconsistency m s1)
         else s1)"

text \<open>
  The loop over the sequence lists of the payload. The first component of the result
  says whether the loop was left by \<^verbatim>\<open>goto drop\<close>.
\<close>

fun icmp_lists :: "roll_config \<Rightarrow> sequence_list list \<Rightarrow> roll_state \<Rightarrow> bool \<times> roll_state" where
  "icmp_lists cfg [] s = (False, s)"
| "icmp_lists cfg (l # ls) s =
     (if sl_flags l AND SEQUENCE_LIST_RES \<noteq> 0 then (True, s)
      else if ROLL_TRICKLE_SHORT_SEEDS cfg \<noteq> SEQUENCE_LIST_GET_S l
      then (True, STATS_ADD_icmp_bad s)
      else
        (let m = SEQUENCE_LIST_GET_M l;
             s1 = s\<lparr>loctpptr := Some m\<rparr>
         in case window_lookup s1 (sl_seed_id l) m of
              Some i \<Rightarrow>
                (let s2 = s1\<lparr>windows :=
                               (windows s1)[i := (SLIDING_WINDOW_LISTED_SET (windows s1 ! i))
                                                   \<lparr>min_listed := - 1\<rparr>]\<rparr>
                 in icmp_lists cfg ls (fold (icmp_check_seq m i) (seqs l) s2))
            | None \<Rightarrow> icmp_lists cfg ls (set_inconsistency m s1)))"

text \<open>The store \<^verbatim>\<open>loctpptr->inconsistency = 1\<close> of the scan of the buffer: through
  whatever \<^verbatim>\<open>loctpptr\<close> holds at that point.\<close>

definition loctpptr_set_inconsistency :: "roll_state \<Rightarrow> fault + roll_state" where
  "loctpptr_set_inconsistency s =
     (case loctpptr s of
        None \<Rightarrow> Inl Null_timer_write
      | Some m \<Rightarrow> Inr (set_inconsistency m s))"

text \<open>The body of the scan of the buffer after the payload is parsed, for slot \<open>j\<close>.\<close>

definition icmp_check_packet :: "nat \<Rightarrow> roll_state \<Rightarrow> fault + roll_state" where
  "icmp_check_packet j s =
     (let p = buffered_msgs s ! j
      in if MCAST_PACKET_IS_USED p then
           (let w = windows s ! sw p
            in if \<not> SLIDING_WINDOW_IS_LISTED w \<or>
                  (\<not> MCAST_PACKET_IS_LISTED p \<and> sint (min_listed w) \<ge> 0 \<and>
                   SEQ_VAL_IS_GT (uint (seq_val p)) (sint (min_listed w)))
               then (case loctpptr_set_inconsistency s of
                       Inl f \<Rightarrow> Inl f
                     | Inr s1 \<Rightarrow>
                         Inr (s1\<lparr>buffered_msgs :=
                                   (buffered_msgs s1)[j := MCAST_PACKET_SEND_SET p]\<rparr>))
               else Inr s)
         else Inr s)"

primrec icmp_check_packets_from :: "nat \<Rightarrow> roll_state \<Rightarrow> fault + roll_state" where
  "icmp_check_packets_from 0 s = Inr s"
| "icmp_check_packets_from (Suc j) s =
     (case icmp_check_packet j s of
        Inl f \<Rightarrow> Inl f
      | Inr s1 \<Rightarrow> icmp_check_packets_from j s1)"

text \<open>The code behind the label \<^verbatim>\<open>drop\<close>, for one controller.\<close>

definition icmp_update_timer ::
  "bool \<Rightarrow> clock_time_t \<Rightarrow> uint16_t \<Rightarrow> roll_state \<Rightarrow> fault + roll_state" where
  "icmp_update_timer m now rnd s =
     (if inconsistency (t s m) \<noteq> 0 then reset_trickle_timer m now rnd s
      else Inr (s\<lparr>t := (t s)(m := (t s m)\<lparr>c := c (t s m) + 1\<rparr>)\<rparr>))"

text \<open>
  The part of \<^verbatim>\<open>roll_trickle_icmp_input\<close> between the header checks and the label
  \<^verbatim>\<open>drop\<close>: the listed bits are cleared, the payload is parsed and, unless the parse
  left by \<^verbatim>\<open>goto drop\<close>, the buffer is scanned.
\<close>

definition icmp_process :: "roll_config \<Rightarrow> sequence_list list \<Rightarrow> roll_state \<Rightarrow> fault + roll_state" where
  "icmp_process cfg sls s0 =
     (let s1 = s0\<lparr>windows := map SLIDING_WINDOW_LISTED_CLR (windows s0)\<rparr>;
          s2 = s1\<lparr>buffered_msgs := map MCAST_PACKET_LISTED_CLR (buffered_msgs s1)\<rparr>;
          r = icmp_lists cfg sls s2
      in if fst r then Inr (snd r)
         else icmp_check_packets_from (length (buffered_msgs (snd r))) (snd r))"

text \<open>
  \<^verbatim>\<open>roll_trickle_icmp_input\<close>. \<open>dg\<close> and \<open>icode\<close> are the headers of the message in
  \<^verbatim>\<open>uip_buf\<close>, \<open>sls\<close> its payload; \<open>now0\<close>, \<open>rnd0\<close> and \<open>now1\<close>, \<open>rnd1\<close> are what a
  reset of controller 0 and of controller 1 reads from the clock and the random source.
\<close>

definition roll_trickle_icmp_input ::
  "roll_config \<Rightarrow> uip_datagram \<Rightarrow> uint8_t \<Rightarrow> sequence_list list \<Rightarrow>
   clock_time_t \<Rightarrow> uint16_t \<Rightarrow> clock_time_t \<Rightarrow> uint16_t \<Rightarrow> roll_state \<Rightarrow> fault + roll_state" where
  "roll_trickle_icmp_input cfg dg icode sls now0 rnd0 now1 rnd1 s =
     (if icmp_input_bad cfg dg icode then Inr (STATS_ADD_icmp_bad s)
      else
        (case icmp_process cfg sls (STATS_ADD_icmp_in s) of
           Inl f \<Rightarrow> Inl f
         | Inr s1 \<Rightarrow>
             (case icmp_update_timer False now0 rnd0 s1 of
                Inl f \<Rightarrow> Inl f
              | Inr s2 \<Rightarrow> icmp_update_timer True now1 rnd1 s2)))"

section \<open>Initialisation\<close>

definition zero_datagram :: uip_datagram where
  "zero_datagram =
     \<lparr>srcipaddr = replicate 16 0, destipaddr = replicate 16 0, proto = 0, ttl = 0,
      hbho_type = 0, hbho_len = 0, hbho_seed_id = replicate 2 0, hbho_flags = 0,
      hbho_seq_id_lsb = 0, payload = []\<rparr>"

definition zero_packet :: mcast_packet where
  "zero_packet =
     \<lparr>active = 0, dwell = 0, buff_len = 0, seq_val = 0, sw = 0, pflags = 0, buff = zero_datagram\<rparr>"

definition zero_param :: trickle_param where
  "zero_param =
     \<lparr>i_min = 0, t_start = 0, t_end = 0, t_next = 0, t_last_trigger = 0, ct = None,
      i_current = 0, i_max = 0, k = 0, t_active = 0, t_dwell = 0, c = 0, inconsistency = 0\<rparr>"

definition init_window :: "roll_config \<Rightarrow> sliding_window" where
  "init_window cfg =
     \<lparr>seed_id = replicate (if ROLL_TRICKLE_SHORT_SEEDS cfg then 2 else 16) 0,
      lower_bound = - 1, upper_bound = - 1, min_listed = - 1, flags = 0, count = 0\<rparr>"

definition TIMER_CONFIGURE :: "roll_config \<Rightarrow> bool \<Rightarrow> clock_time_t \<Rightarrow> roll_state \<Rightarrow> roll_state" where
  "TIMER_CONFIGURE cfg m now s =
     s\<lparr>t := (t s)(m := (t s m)\<lparr>i_min := ROLL_TRICKLE_IMIN cfg m,
                               i_max := ROLL_TRICKLE_IMAX cfg m,
                               k := ROLL_TRICKLE_K cfg m,
                               t_active := ROLL_TRICKLE_T_ACTIVE cfg m,
                               t_dwell := ROLL_TRICKLE_T_DWELL cfg m,
                               t_last_trigger := now\<rparr>)\<rparr>"

text \<open>
  \<^verbatim>\<open>roll_trickle_init\<close>. The four clock values are those read by the two
  \<^verbatim>\<open>TIMER_CONFIGURE\<close> and the two resets, in the order of the calls.
\<close>

definition roll_trickle_init ::
  "roll_config \<Rightarrow> clock_time_t \<Rightarrow> clock_time_t \<Rightarrow> uint16_t \<Rightarrow>
   clock_time_t \<Rightarrow> clock_time_t \<Rightarrow> uint16_t \<Rightarrow> roll_state \<Rightarrow> fault + roll_state" where
  "roll_trickle_init cfg cnow0 now0 rnd0 cnow1 now1 rnd1 s =
     (let s1 = s\<lparr>windows := replicate (ROLL_TRICKLE_WINS cfg) (init_window cfg),
                 buffered_msgs := replicate (ROLL_TRICKLE_BUFF_NUM cfg) zero_packet,
                 t := (\<lambda>m. zero_param),
                 roll_trickle_stat :=
                   \<lparr>mcast_in_unique = 0, mcast_in_all = 0, mcast_dropped = 0, mcast_bad = 0,
                    mcast_fwd = 0, icmp_in = 0, icmp_bad = 0, icmp_out = 0\<rparr>\<rparr>
      in case reset_trickle_timer False now0 rnd0 (TIMER_CONFIGURE cfg False cnow0 s1) of
           Inl f \<Rightarrow> Inl f
         | Inr s2 \<Rightarrow> reset_trickle_timer True now1 rnd1 (TIMER_CONFIGURE cfg True cnow1 s2))"

section \<open>Auxiliary predicates\<close>

text \<open>
  Between two states the controllers differ at most in their inconsistency flags, and
  a flag that was set is still set.
\<close>

definition timers_only_flagged :: "roll_state \<Rightarrow> roll_state \<Rightarrow> bool" where
  "timers_only_flagged s s' \<longleftrightarrow>
     (\<forall>m. (t s' m)\<lparr>inconsistency := 0\<rparr> = (t s m)\<lparr>inconsistency := 0\<rparr> \<and>
          (inconsistency (t s m) \<noteq> 0 \<longrightarrow> inconsistency (t s' m) \<noteq> 0))"

text \<open>Two states agree on every static.\<close>

definition same_state :: "roll_state \<Rightarrow> roll_state \<Rightarrow> bool" where
  "same_state s s' \<longleftrightarrow>
     t s False = t s' False \<and> t s True = t s' True \<and> windows s = windows s' \<and>
     buffered_msgs s = buffered_msgs s' \<and> loctpptr s = loctpptr s' \<and>
     last_seq s = last_seq s' \<and> roll_trickle_stat s = roll_trickle_stat s'"

text \<open>An event is a control message.\<close>

fun is_icmp_output :: "event \<Rightarrow> bool" where
  "is_icmp_output (Icmp_output sls) = True"
| "is_icmp_output (Tcpip_output dg len) = False"

text \<open>
  The distance from a base \<open>b\<close> forward to \<open>v\<close> on the circle of \<open>0x8000\<close> sequence
  values.
\<close>

definition seq_off :: "int \<Rightarrow> int \<Rightarrow> int" where
  "seq_off b v = (v - b) mod 0x8000"

text \<open>
  What one used packet with sequence value \<open>sv\<close> does to the lower and to the upper
  bound of its window in \<^verbatim>\<open>window_update_bounds\<close>.
\<close>

definition lower_step :: "uint16_t \<Rightarrow> int16_t \<Rightarrow> int16_t" where
  "lower_step sv lb = (if sint lb < 0 \<or> SEQ_VAL_IS_LT (uint sv) (sint lb) then sv else lb)"

definition upper_step :: "uint16_t \<Rightarrow> int16_t \<Rightarrow> int16_t" where
  "upper_step sv ub = (if sint ub < 0 \<or> SEQ_VAL_IS_GT (uint sv) (sint ub) then sv else ub)"

text \<open>
  The packets attached to window \<open>i\<close>: the slots of the used packets whose \<open>sw\<close> is
  \<open>i\<close>, and their sequence values in the order in which the scans of the source meet
  them, from the last slot down.
\<close>

definition attached :: "roll_state \<Rightarrow> nat \<Rightarrow> nat list" where
  "attached s i =
     filter (\<lambda>j. MCAST_PACKET_IS_USED (buffered_msgs s ! j) \<and> sw (buffered_msgs s ! j) = i)
       [0..<length (buffered_msgs s)]"

definition attached_seqs :: "roll_state \<Rightarrow> nat \<Rightarrow> uint16_t list" where
  "attached_seqs s i = icmp_output_seqs (length (buffered_msgs s)) (buffered_msgs s) i"

text \<open>All values of a list are 15-bit values less than half the sequence space ahead
  of the base \<open>b\<close>.\<close>

definition within_half_window :: "int \<Rightarrow> uint16_t list \<Rightarrow> bool" where
  "within_half_window b vs \<longleftrightarrow> (\<forall>v\<in>set vs. v \<le> 0x7FFF \<and> seq_off b (uint v) < 0x4000)"

text \<open>
  The bookkeeping of the two tables: at most 255 slots; a used packet points to a
  window of the table and holds a 15-bit value; the count of every window is the
  number of packets attached to it, and a window that is not used has count 0.
\<close>

definition table_inv_weak :: "roll_state \<Rightarrow> bool" where
  "table_inv_weak s \<longleftrightarrow>
     length (buffered_msgs s) \<le> 255 \<and>
     (\<forall>j<length (buffered_msgs s).
        MCAST_PACKET_IS_USED (buffered_msgs s ! j) \<longrightarrow>
          sw (buffered_msgs s ! j) < length (windows s) \<and>
          seq_val (buffered_msgs s ! j) \<le> 0x7FFF) \<and>
     (\<forall>i<length (windows s).
        unat (count (windows s ! i)) = length (attached s i) \<and>
        (\<not> SLIDING_WINDOW_IS_USED (windows s ! i) \<longrightarrow> count (windows s ! i) = 0))"

text \<open>The lower bound of every window with packets is the value of one of them.\<close>

definition lower_attained :: "roll_state \<Rightarrow> bool" where
  "lower_attained s \<longleftrightarrow>
     (\<forall>i<length (windows s).
        attached s i \<noteq> [] \<longrightarrow>
          (\<exists>j\<in>set (attached s i).
             uint (seq_val (buffered_msgs s ! j)) = sint (lower_bound (windows s ! i))))"

definition table_inv :: "roll_state \<Rightarrow> bool" where
  "table_inv s \<longleftrightarrow> table_inv_weak s \<and> lower_attained s"

text \<open>
  The bounds of every window with packets are sequence values, the upper bound is
  less than half the sequence space ahead of the lower bound, and every attached value
  lies between them, counted forward from the lower bound.
\<close>

definition bounds_inv :: "roll_state \<Rightarrow> bool" where
  "bounds_inv s \<longleftrightarrow>
     (\<forall>i<length (windows s).
        attached s i \<noteq> [] \<longrightarrow>
          0 \<le> sint (lower_bound (windows s ! i)) \<and>
          0 \<le> sint (upper_bound (windows s ! i)) \<and>
          seq_off (sint (lower_bound (windows s ! i))) (sint (upper_bound (windows s ! i))) < 0x4000 \<and>
          (\<forall>j\<in>set (attached s i).
             seq_off (sint (lower_bound (windows s ! i))) (uint (seq_val (buffered_msgs s ! j)))
               \<le> seq_off (sint (lower_bound (windows s ! i))) (sint (upper_bound (windows s ! i)))))"

definition engine_inv :: "roll_state \<Rightarrow> bool" where
  "engine_inv s \<longleftrightarrow> table_inv s \<and> bounds_inv s"

definition engine_inv_weak :: "roll_state \<Rightarrow> bool" where
  "engine_inv_weak s \<longleftrightarrow> table_inv_weak s \<and> bounds_inv s"

text \<open>
  The property of the bounds as the specification states it: no used packet attached
  to a used window is serially less than the lower bound or greater than the upper
  bound of that window.
\<close>

definition bounds_hold :: "roll_state \<Rightarrow> bool" where
  "bounds_hold s \<longleftrightarrow>
     (\<forall>j<length (buffered_msgs s).
        MCAST_PACKET_IS_USED (buffered_msgs s ! j) \<and>
        sw (buffered_msgs s ! j) < length (windows s) \<and>
        SLIDING_WINDOW_IS_USED (windows s ! sw (buffered_msgs s ! j)) \<longrightarrow>
          \<not> SEQ_VAL_IS_LT (uint (seq_val (buffered_msgs s ! j)))
               (sint (lower_bound (windows s ! sw (buffered_msgs s ! j)))) \<and>
          \<not> SEQ_VAL_IS_GT (uint (seq_val (buffered_msgs s ! j)))
               (sint (upper_bound (windows s ! sw (buffered_msgs s ! j)))))"

text \<open>What the properties above read of the two tables.\<close>

definition packet_view :: "mcast_packet \<Rightarrow> bool \<times> nat \<times> uint16_t" where
  "packet_view p = (MCAST_PACKET_IS_USED p, sw p, seq_val p)"

definition window_view :: "sliding_window \<Rightarrow> bool \<times> uint8_t \<times> int16_t \<times> int16_t" where
  "window_view w = (SLIDING_WINDOW_IS_USED w, count w, lower_bound w, upper_bound w)"

definition same_tables :: "roll_state \<Rightarrow> roll_state \<Rightarrow> bool" where
  "same_tables s s' \<longleftrightarrow>
     map packet_view (buffered_msgs s') = map packet_view (buffered_msgs s) \<and>
     map window_view (windows s') = map window_view (windows s)"

text \<open>The window that \<^verbatim>\<open>buffer_reclaim\<close> selects: \<^verbatim>\<open>largest\<close> after its first loop.\<close>

definition largest_window :: "roll_state \<Rightarrow> nat" where
  "largest_window s = reclaim_largest (length (windows s)) (windows s) 0"

text \<open>
  The packet of a datagram is stored outside its window: when \<^verbatim>\<open>roll_trickle_accept\<close>
  has a slot for the datagram, after \<^verbatim>\<open>buffer_reclaim\<close> if none was free, the window
  that it found for the datagram holds packets, and the sequence value of the datagram
  is not less than half the sequence space ahead of the lower bound of that window.
  The value is then serially less than the lower bound, or exactly half the sequence
  space from it.
\<close>

definition stored_out_of_window :: "roll_config \<Rightarrow> uip_datagram \<Rightarrow> roll_state \<Rightarrow> bool" where
  "stored_out_of_window cfg dg s \<longleftrightarrow>
     (case window_lookup s (if ROLL_TRICKLE_SHORT_SEEDS cfg then hbho_seed_id dg else srcipaddr dg)
             (HBH_GET_M dg) of
        None \<Rightarrow> False
      | Some i \<Rightarrow>
          (let w = windows (snd (accept_buffer s)) ! i
           in count w \<noteq> 0 \<and>
              0x4000 \<le> seq_off (sint (lower_bound w)) (uint (hbho_seq_val dg))))"

text \<open>
  The states of the engine: those that \<^verbatim>\<open>roll_trickle_init\<close> leaves, and those that a
  complete run of \<^verbatim>\<open>roll_trickle_accept\<close>, \<^verbatim>\<open>roll_trickle_icmp_input\<close>, \<^verbatim>\<open>handle_timer\<close>
  or \<^verbatim>\<open>double_interval\<close> leaves when started in one of them.
\<close>

inductive reachable :: "roll_config \<Rightarrow> roll_state \<Rightarrow> bool" for cfg :: roll_config where
  reachable_init:
    "roll_trickle_init cfg cnow0 now0 rnd0 cnow1 now1 rnd1 s0 = Inr s \<Longrightarrow> reachable cfg s"
| reachable_accept:
    "reachable cfg s \<Longrightarrow> roll_trickle_accept cfg inp dg uip_len now rnd s = Inr (rv, s') \<Longrightarrow>
     reachable cfg s'"
| reachable_icmp_input:
    "reachable cfg s \<Longrightarrow>
     roll_trickle_icmp_input cfg dg icode sls now0 rnd0 now1 rnd1 s = Inr s' \<Longrightarrow>
     reachable cfg s'"
| reachable_handle_timer:
    "reachable cfg s \<Longrightarrow> handle_timer cfg ptr ready now now' rnd s = Inr (evs, s') \<Longrightarrow>
     reachable cfg s'"
| reachable_double_interval:
    "reachable cfg s \<Longrightarrow> double_interval m now rnd s = Inr s' \<Longrightarrow> reachable cfg s'"


section \<open>Concrete inputs\<close>

text \<open>Configurations, datagrams and states at which the theorems below are evaluated.\<close>

text \<open>
  A node with two windows and two packet slots, short seeds, \<open>Imin\<close> of 64 ticks and four
  doublings; controller 0 has redundancy constant 1 and controller 1 has the
  infinite-redundancy sentinel.
\<close>

definition cfg0 :: roll_config where
  "cfg0 =
     \<lparr>ROLL_TRICKLE_WINS = 2, ROLL_TRICKLE_BUFF_NUM = 2, ROLL_TRICKLE_SHORT_SEEDS = True,
      UIP_CONF_IPV6_CHECKS = True, ROLL_TRICKLE_INFINITE_REDUNDANCY = 0xFF,
      ROLL_TRICKLE_IMIN = (\<lambda>m. 64), ROLL_TRICKLE_IMAX = (\<lambda>m. 4),
      ROLL_TRICKLE_K = (\<lambda>m. if m then 0xFF else 1),
      ROLL_TRICKLE_T_ACTIVE = (\<lambda>m. 3), ROLL_TRICKLE_T_DWELL = (\<lambda>m. 6),
      ROLL_TRICKLE_ICMP_CODE = 0, ROLL_TRICKLE_IP_HOP_LIMIT = 0xFF,
      ROLL_TRICKLE_DGRAM_IN = 1, UIP_PROTO_HBHO = 0,
      uip_is_addr_mcast_non_routable = (\<lambda>a. False),
      uip_is_addr_unspecified = (\<lambda>a. a = replicate 16 0),
      uip_is_addr_link_local = (\<lambda>a. take 2 a = [0xFE, 0x80]),
      uip_is_addr_linklocal_allnodes_mcast = (\<lambda>a. take 2 a = [0xFF, 0x02]),
      uip_is_addr_linklocal_allrouters_mcast = (\<lambda>a. False)\<rparr>"

text \<open>The same node with three packet slots.\<close>

definition cfg3 :: roll_config where
  "cfg3 = cfg0\<lparr>ROLL_TRICKLE_BUFF_NUM := 3\<rparr>"

definition seed_a :: seed_id_t where "seed_a = [0xAB, 0x01]"
definition seed_b :: seed_id_t where "seed_b = [0xAB, 0x02]"

text \<open>A multicast datagram with the Trickle option: seed, flags byte (parametrization
  bit and the high seven bits of the sequence value) and low byte.\<close>

definition mcast_dgram :: "seed_id_t \<Rightarrow> uint8_t \<Rightarrow> uint8_t \<Rightarrow> uip_datagram" where
  "mcast_dgram sd fl lsb =
     \<lparr>srcipaddr = [0xFE, 0x80] @ replicate 13 0 @ [1],
      destipaddr = [0xFF, 0x1E] @ replicate 13 0 @ [1],
      proto = 0, ttl = 64, hbho_type = 0x0C, hbho_len = 4, hbho_seed_id = sd,
      hbho_flags = fl, hbho_seq_id_lsb = lsb, payload = []\<rparr>"

text \<open>The headers of a Trickle ICMPv6 message from a link-local neighbour.\<close>

definition icmp_dgram :: uip_datagram where
  "icmp_dgram =
     \<lparr>srcipaddr = [0xFE, 0x80] @ replicate 13 0 @ [2],
      destipaddr = [0xFF, 0x02] @ replicate 13 0 @ [1],
      proto = 58, ttl = 0xFF, hbho_type = 0, hbho_len = 0, hbho_seed_id = [],
      hbho_flags = 0, hbho_seq_id_lsb = 0, payload = []\<rparr>"

text \<open>The statics before \<^verbatim>\<open>roll_trickle_init\<close> has run.\<close>

definition st_boot :: roll_state where
  "st_boot =
     \<lparr>t = (\<lambda>m. zero_param), windows = [], buffered_msgs = [], loctpptr = None, last_seq = 0,
      roll_trickle_stat =
        \<lparr>mcast_in_unique = 0, mcast_in_all = 0, mcast_dropped = 0, mcast_bad = 0,
         mcast_fwd = 0, icmp_in = 0, icmp_bad = 0, icmp_out = 0\<rparr>\<rparr>"

text \<open>Builders for the states below: a controller of \<open>cfg0\<close> as a reset at clock 0
  with random number 0 leaves it, a window, and the packet that an inbound admission
  stores.\<close>

definition mk_param :: "uint8_t \<Rightarrow> uint8_t \<Rightarrow> trickle_param" where
  "mk_param k0 inc0 =
     \<lparr>i_min = 64, t_start = 0, t_end = 64, t_next = 32, t_last_trigger = 0,
      ct = Some (32, Handle_timer), i_current = 0, i_max = 4, k = k0, t_active = 3,
      t_dwell = 6, c = 0, inconsistency = inc0\<rparr>"

definition mk_window :: "seed_id_t \<Rightarrow> int16_t \<Rightarrow> int16_t \<Rightarrow> uint8_t \<Rightarrow> uint8_t \<Rightarrow> sliding_window" where
  "mk_window sd lb ub fl cnt =
     \<lparr>seed_id = sd, lower_bound = lb, upper_bound = ub, min_listed = - 1, flags = fl,
      count = cnt\<rparr>"

definition mk_packet :: "seed_id_t \<Rightarrow> uint8_t \<Rightarrow> uint8_t \<Rightarrow> nat \<Rightarrow> mcast_packet" where
  "mk_packet sd fl lsb i =
     accept_packet cfg0 1 (mcast_dgram sd fl lsb) 48 i (hbho_seq_val (mcast_dgram sd fl lsb))"

definition mk_state ::
  "uint8_t \<Rightarrow> sliding_window list \<Rightarrow> mcast_packet list \<Rightarrow> nat \<Rightarrow> nat \<Rightarrow> roll_state" where
  "mk_state inc0 ws ps n d =
     \<lparr>t = (\<lambda>m. if m then mk_param 0xFF 0 else mk_param 1 inc0),
      windows = ws, buffered_msgs = ps, loctpptr = None, last_seq = 0,
      roll_trickle_stat =
        \<lparr>mcast_in_unique = n, mcast_in_all = n + d, mcast_dropped = d, mcast_bad = 0,
         mcast_fwd = 0, icmp_in = 0, icmp_bad = 0, icmp_out = 0\<rparr>\<rparr>"

text \<open>After \<^verbatim>\<open>roll_trickle_init\<close>.\<close>

definition st_init :: roll_state where
  "st_init = mk_state 0 [init_window cfg0, init_window cfg0] [zero_packet, zero_packet] 0 0"

text \<open>After the admission of sequence value 5 of seed \<open>seed_a\<close>.\<close>

definition st_one :: roll_state where
  "st_one =
     mk_state 1 [init_window cfg0, mk_window seed_a 5 5 0x80 1]
       [zero_packet, mk_packet seed_a 0 5 1] 1 0"

text \<open>After the further admission of sequence value 5 of seed \<open>seed_b\<close>: both slots are
  taken and each window holds one packet.\<close>

definition st_full :: roll_state where
  "st_full =
     mk_state 1 [mk_window seed_b 5 5 0x80 1, mk_window seed_a 5 5 0x80 1]
       [mk_packet seed_b 0 5 0, mk_packet seed_a 0 5 1] 2 0"

text \<open>After the admission of the values 5 and 8 of seed \<open>seed_a\<close>: both slots are taken
  by one window.\<close>

definition st_two :: roll_state where
  "st_two =
     mk_state 1 [init_window cfg0, mk_window seed_a 5 8 0x80 2]
       [mk_packet seed_a 0 8 1, mk_packet seed_a 0 5 1] 2 0"



text \<open>A control message that lists exactly the value 5 for seed \<open>seed_a\<close> under
  parametrization 0, and one that lists a seed unknown to the node under
  parametrization 1.\<close>

definition msg_a5 :: "sequence_list list" where
  "msg_a5 = [\<lparr>sl_flags = 0x80, seq_len = 1, sl_seed_id = seed_a, seqs = [5]\<rparr>]"

definition msg_b1 :: "sequence_list list" where
  "msg_b1 = [\<lparr>sl_flags = 0xC0, seq_len = 1, sl_seed_id = seed_b, seqs = [9]\<rparr>]"

text \<open>After the admission, from the initial state, of sequence value 5 of seed \<open>seed_a\<close>
  with the parametrization bit set.\<close>

definition st_m1 :: roll_state where
  "st_m1 =
     (mk_state 0 [init_window cfg0, mk_window seed_a 5 5 0xC0 1]
        [zero_packet, mk_packet seed_a 0x80 5 1] 1 0)
     \<lparr>t := (\<lambda>m. if m then mk_param 0xFF 1 else mk_param 1 0)\<rparr>"

text \<open>The state \<open>st_one\<close> after a timer pass of controller 0 at clock 0: the packet was
  sent, a control message went out and the inconsistency flag is clear.\<close>

definition st_quiet :: roll_state where
  "st_quiet =
     (mk_state 0 [init_window cfg0, mk_window seed_a 5 5 0x80 1]
        [zero_packet, (mk_packet seed_a 0 5 1)\<lparr>pflags := 0x80\<rparr>] 1 0)
     \<lparr>t := (\<lambda>m. if m then mk_param 0xFF 0
                else (mk_param 1 0)\<lparr>t_next := 64, ct := Some (64, Double_interval)\<rparr>),
      roll_trickle_stat :=
        \<lparr>mcast_in_unique = 1, mcast_in_all = 1, mcast_dropped = 0, mcast_bad = 0,
         mcast_fwd = 1, icmp_in = 0, icmp_bad = 0, icmp_out = 1\<rparr>\<rparr>"

text \<open>
  From \<open>st_two\<close>: a timer pass of controller 0 at clock 10; then, at clock 100, the
  admission of value 7 of \<open>seed_a\<close>, which reclaims the slot of value 5; then a timer
  pass at clock 6200, in which the packet with value 8 has dwelt too long and is freed.
\<close>

definition st_aged :: roll_state where
  "st_aged = snd (projr (handle_timer cfg0 (Timer False) True 10 10 0 st_two))"

definition st_slid :: roll_state where
  "st_slid = snd (projr (roll_trickle_accept cfg0 1 (mcast_dgram seed_a 0 7) 48 100 0 st_aged))"


text \<open>
  On the node with three slots: after start-up, the admission of the values 5, \<open>0x4005\<close>
  and 6 of \<open>seed_a\<close>, in this order.
\<close>

definition st3_init :: roll_state where
  "st3_init = projr (roll_trickle_init cfg3 0 0 0 0 0 0 st_boot)"

definition st3_one :: roll_state where
  "st3_one = snd (projr (roll_trickle_accept cfg3 1 (mcast_dgram seed_a 0 5) 48 0 0 st3_init))"



text \<open>
  The same node as \<open>cfg0\<close> with 256 packet slots, and the run that admits, after
  start-up, the sequence values 0, 1, ... of \<open>seed_a\<close> in this order, one inbound datagram
  each. \<open>filled q\<close> describes the tables after \<open>q\<close> of these admissions: the packets
  take the slots from the last one down, all in window 1, whose count is \<open>q\<close> in the
  eight bits of \<^verbatim>\<open>count\<close>.
\<close>

definition cfg256 :: roll_config where
  "cfg256 = cfg0\<lparr>ROLL_TRICKLE_BUFF_NUM := 256\<rparr>"

primrec admit_run :: "roll_config \<Rightarrow> nat \<Rightarrow> roll_state \<Rightarrow> fault + roll_state" where
  "admit_run cfg 0 s = Inr s"
| "admit_run cfg (Suc n) s =
     (case admit_run cfg n s of
        Inl f \<Rightarrow> Inl f
      | Inr s1 \<Rightarrow>
          (case roll_trickle_accept cfg 1 (mcast_dgram seed_a 0 (of_nat n)) 48 0 0 s1 of
             Inl f \<Rightarrow> Inl f
           | Inr r \<Rightarrow> Inr (snd r)))"

definition st256_init :: roll_state where
  "st256_init = projr (roll_trickle_init cfg256 0 0 0 0 0 0 st_boot)"

definition st256 :: roll_state where
  "st256 = projr (admit_run cfg256 256 st256_init)"

definition filled :: "nat \<Rightarrow> roll_state \<Rightarrow> bool" where
  "filled q s \<longleftrightarrow>
     length (buffered_msgs s) = 256 \<and> length (windows s) = 2 \<and>
     (\<forall>j<256. MCAST_PACKET_IS_USED (buffered_msgs s ! j) \<longleftrightarrow> 256 - q \<le> j) \<and>
     (\<forall>j<256. MCAST_PACKET_IS_USED (buffered_msgs s ! j) \<longrightarrow>
        sw (buffered_msgs s ! j) = 1 \<and> unat (seq_val (buffered_msgs s ! j)) < q) \<and>
     count (windows s ! 0) = 0 \<and> seed_id (windows s ! 0) \<noteq> seed_a \<and>
     count (windows s ! 1) = of_nat q \<and>
     (if q = 0
      then \<not> SLIDING_WINDOW_IS_USED (windows s ! 1) \<and> seed_id (windows s ! 1) \<noteq> seed_a
      else seed_id (windows s ! 1) = seed_a \<and> \<not> SLIDING_WINDOW_GET_M (windows s ! 1) \<and>
           lower_bound (windows s ! 1) = 0 \<and> upper_bound (windows s ! 1) = of_nat (q - 1)) \<and>
     i_min (t s False) = 64 \<and>
     mcast_in_unique (roll_trickle_stat s) = q"

section \<open>Properties of the serial number arithmetic\<close>

lemma int16_cast_id: "- 0x8000 \<le> x \<Longrightarrow> x < 0x8000 \<Longrightarrow> int16_cast x = x"
  unfolding int16_cast_def
  by (simp add: sint_sbintrunc' signed_take_bit_int_eq_self)

lemma mod_0x8000_neg:
  assumes "- 0x8000 \<le> x" "x < 0"
  shows "(x::int) mod 0x8000 = x + 0x8000"
proof -
  have 1: "(x + 0x8000) mod 0x8000 = x + 0x8000"
    by (rule mod_pos_pos_trivial) (use assms in simp_all)
  have 2: "(x + 0x8000) mod 0x8000 = x mod 0x8000" by (rule mod_add_self2)
  show ?thesis unfolding 2 [symmetric] by (rule 1)
qed

lemma circular_distance_half:
  assumes "0 \<le> (a::int)" "a \<le> 0x7FFF" "0 \<le> b" "b \<le> 0x7FFF"
    and "min ((a - b) mod 0x8000) ((b - a) mod 0x8000) = 0x4000"
  shows "a - b = 0x4000 \<or> b - a = 0x4000"
proof (cases "a = b")
  case True
  with assms(5) show ?thesis by simp
next
  case False
  show ?thesis
  proof (cases "a < b")
    case True
    then have "(a - b) mod 0x8000 = a - b + 0x8000" "(b - a) mod 0x8000 = b - a"
      using assms(1-4) by (simp_all add: mod_0x8000_neg)
    with assms(5) show ?thesis by (simp add: min_def split: if_splits)
  next
    case f: False
    with False have "b < a" by simp
    then have "(b - a) mod 0x8000 = b - a + 0x8000" "(a - b) mod 0x8000 = a - b"
      using assms(1-4) by (simp_all add: mod_0x8000_neg)
    with assms(5) show ?thesis by (simp add: min_def split: if_splits)
  qed
qed

text \<open>
  Claim C8. For two sequence values \<open>a\<close>, \<open>b\<close> in \<open>[0, 0x7FFF]\<close> at most one of
  \<^verbatim>\<open>SEQ_VAL_IS_EQ(a, b)\<close>, \<^verbatim>\<open>SEQ_VAL_IS_LT(a, b)\<close>, \<^verbatim>\<open>SEQ_VAL_IS_GT(a, b)\<close> is true, and
  when their circular distance is exactly \<open>0x4000\<close> all three are false.
\<close>

theorem seq_val_at_most_one:
  assumes "a \<le> 0x7FFF" "b \<le> 0x7FFF"
  shows "\<not> (SEQ_VAL_IS_EQ (uint a) (uint b) \<and> SEQ_VAL_IS_LT (uint a) (uint b)) \<and>
         \<not> (SEQ_VAL_IS_EQ (uint a) (uint b) \<and> SEQ_VAL_IS_GT (uint a) (uint b)) \<and>
         \<not> (SEQ_VAL_IS_LT (uint a) (uint b) \<and> SEQ_VAL_IS_GT (uint a) (uint b)) \<and>
         (circular_distance a b = 0x4000 \<longrightarrow>
            \<not> SEQ_VAL_IS_EQ (uint a) (uint b) \<and> \<not> SEQ_VAL_IS_LT (uint a) (uint b) \<and>
            \<not> SEQ_VAL_IS_GT (uint a) (uint b))"
proof -
  from assms have ra: "0 \<le> uint a" "uint a \<le> 0x7FFF" and rb: "0 \<le> uint b" "uint b \<le> 0x7FFF"
    by (simp_all add: word_le_def)
  have c1: "int16_cast (uint a - uint b) = uint a - uint b"
    using ra rb by (intro int16_cast_id) linarith+
  have c2: "int16_cast (uint b - uint a) = uint b - uint a"
    using ra rb by (intro int16_cast_id) linarith+
  have d: "circular_distance a b = 0x4000 \<Longrightarrow> uint a - uint b = 0x4000 \<or> uint b - uint a = 0x4000"
    unfolding circular_distance_def using ra rb by (rule circular_distance_half)
  show ?thesis
    using d by (auto simp: SEQ_VAL_IS_EQ_def SEQ_VAL_IS_LT_def SEQ_VAL_IS_GT_def c1 c2)
qed

theorem seq_val_at_most_one_witness:
  "(5 :: 16 word) \<le> 0x7FFF \<and> (0x4005 :: 16 word) \<le> 0x7FFF \<and>
   circular_distance 5 0x4005 = 0x4000 \<and>
   \<not> SEQ_VAL_IS_EQ (uint (5 :: 16 word)) (uint (0x4005 :: 16 word)) \<and>
   \<not> SEQ_VAL_IS_LT (uint (5 :: 16 word)) (uint (0x4005 :: 16 word)) \<and>
   \<not> SEQ_VAL_IS_GT (uint (5 :: 16 word)) (uint (0x4005 :: 16 word))"
proof -
  have h: "(5 :: 16 word) \<le> 0x7FFF" "(0x4005 :: 16 word) \<le> 0x7FFF" by simp_all
  have d: "circular_distance 5 0x4005 = 0x4000" by (simp add: circular_distance_def)
  show ?thesis using h d seq_val_at_most_one [OF h] by simp
qed

section \<open>Properties of the Trickle timers\<close>

text \<open>
  Claim C7. \<^verbatim>\<open>random_interval(i_min, d)\<close> is documented to return a value in
  \<open>[I/2, I)\<close> for \<open>I = i_min << d\<close>. Evaluated on the code: with \<open>i_min = 2\<close> or
  \<open>i_min = 1\<close> and no doubling the right operand of the remainder is zero, and with
  \<open>i_min = 3\<close> after one doubling the value returned for the random number 0 is 2,
  below \<open>I/2 = 3\<close>.
\<close>

theorem random_interval_zero_modulus:
  "random_interval 2 0 rnd = Inl Modulo_by_zero \<and>
   random_interval 1 0 rnd = Inl Modulo_by_zero \<and>
   random_interval 3 1 0 = Inr 2 \<and>
   drop_bit 1 (TRICKLE_TIME 3 1) = 3"
  by (simp add: random_interval_def TRICKLE_TIME_def)

section \<open>Properties of control-message processing\<close>

lemma tof_refl: "timers_only_flagged s s"
  by (simp add: timers_only_flagged_def)

lemma tof_same: "t s' = t s \<Longrightarrow> timers_only_flagged s s'"
  by (simp add: timers_only_flagged_def)

lemma tof_trans:
  "timers_only_flagged s s1 \<Longrightarrow> timers_only_flagged s1 s2 \<Longrightarrow> timers_only_flagged s s2"
  by (simp add: timers_only_flagged_def)

lemma tof_set_inconsistency: "timers_only_flagged s (set_inconsistency m s)"
  by (simp add: timers_only_flagged_def set_inconsistency_def)

lemma tof_icmp_check_seq: "timers_only_flagged s (icmp_check_seq m i val s)"
  by (simp add: icmp_check_seq_def Let_def timers_only_flagged_def set_inconsistency_def
           split: option.splits)

lemma tof_fold_check_seq: "timers_only_flagged s (fold (icmp_check_seq m i) vs s)"
proof (induction vs arbitrary: s)
  case Nil
  show ?case by (simp add: tof_refl)
next
  case (Cons v vs)
  show ?case using tof_trans [OF tof_icmp_check_seq Cons.IH] by simp
qed

lemma tof_icmp_lists: "timers_only_flagged s (snd (icmp_lists cfg sls s))"
proof (induction sls arbitrary: s)
  case Nil
  show ?case by (simp add: tof_refl)
next
  case (Cons l ls)
  have ih: "\<And>s0 s1. timers_only_flagged s0 s1 \<Longrightarrow>
              timers_only_flagged s0 (snd (icmp_lists cfg ls s1))"
    using Cons.IH tof_trans by blast
  let ?m = "SEQUENCE_LIST_GET_M l"
  let ?s1 = "s\<lparr>loctpptr := Some ?m\<rparr>"
  have s1: "timers_only_flagged s ?s1" by (simp add: tof_same)
  have none: "timers_only_flagged s (set_inconsistency ?m ?s1)"
    using tof_trans [OF s1 tof_set_inconsistency] .
  have some: "timers_only_flagged s (fold (icmp_check_seq ?m i) (seqs l)
                 (?s1\<lparr>windows := ws\<rparr>))" for i ws
    by (rule tof_trans [OF _ tof_fold_check_seq]) (simp add: tof_same)
  show ?case
    by (auto simp: Let_def tof_refl STATS_ADD_icmp_bad_def tof_same
             intro!: ih none some split: option.splits)
qed

lemma tof_icmp_check_packet: "icmp_check_packet j s = Inr s' \<Longrightarrow> timers_only_flagged s s'"
  unfolding icmp_check_packet_def loctpptr_set_inconsistency_def Let_def
  by (auto simp: timers_only_flagged_def set_inconsistency_def split: if_splits option.splits)

lemma tof_icmp_check_packets_from:
  "icmp_check_packets_from j s = Inr s' \<Longrightarrow> timers_only_flagged s s'"
proof (induction j arbitrary: s)
  case 0
  then show ?case by (simp add: tof_refl)
next
  case (Suc j)
  then show ?case
    by (auto split: sum.splits dest!: tof_icmp_check_packet intro: tof_trans)
qed

lemma tof_icmp_process: "icmp_process cfg sls s = Inr s' \<Longrightarrow> timers_only_flagged s s'"
proof -
  assume a: "icmp_process cfg sls s = Inr s'"
  let ?s2 = "s\<lparr>windows := map SLIDING_WINDOW_LISTED_CLR (windows s),
               buffered_msgs := map MCAST_PACKET_LISTED_CLR (buffered_msgs s)\<rparr>"
  have 1: "timers_only_flagged s ?s2" by (simp add: tof_same)
  have 2: "timers_only_flagged ?s2 (snd (icmp_lists cfg sls ?s2))" by (rule tof_icmp_lists)
  have 3: "timers_only_flagged (snd (icmp_lists cfg sls ?s2)) s'"
    using a unfolding icmp_process_def Let_def
    by (auto simp: tof_refl split: if_splits dest: tof_icmp_check_packets_from)
  show ?thesis using 1 2 3 tof_trans by blast
qed

section \<open>Frame properties of the timers\<close>

lemma same_state_eq: "same_state s s' \<Longrightarrow> s = s'"
proof -
  assume a: "same_state s s'"
  then have "t s = t s'" 
    unfolding same_state_def fun_eq_iff by (metis (full_types))
  with a show ?thesis unfolding same_state_def by (cases s; cases s'; simp)
qed

lemma reset_trickle_timer_Inr:
  assumes "reset_trickle_timer index now rnd s = Inr s'"
  shows "\<exists>nxt. random_interval (i_min (t s index)) 0 rnd = Inr nxt \<and>
           s' = s\<lparr>t := (t s)(index := (t s index)\<lparr>t_start := now, t_end := now + i_min (t s index),
                     i_current := 0, c := 0, t_next := nxt, ct := Some (nxt, Handle_timer)\<rparr>)\<rparr>"
  using assms unfolding reset_trickle_timer_def Let_def
  by (auto split: sum.splits)

lemma t_window_update_bounds [simp]: "t (window_update_bounds s) = t s"
  by (simp add: window_update_bounds_def)

lemma t_window_allocate [simp]: "t (snd (window_allocate s)) = t s"
  by (simp add: window_allocate_def split: option.splits prod.splits)

lemma t_buffer_reclaim [simp]: "t (snd (buffer_reclaim s)) = t s"
  by (simp add: buffer_reclaim_def Let_def split: option.splits)

lemma t_accept_buffer [simp]: "t (snd (accept_buffer s)) = t s"
  by (simp add: accept_buffer_def split: option.splits)

lemma t_handle_packet [simp]: "t (snd (handle_packet cfg m dl ds j es)) = t (snd es)"
  by (simp add: handle_packet_def Let_def)

lemma t_handle_packets_from [simp]: "t (snd (handle_packets_from cfg m dl ds j es)) = t (snd es)"
  by (induction j arbitrary: es) simp_all

lemma events_handle_packet:
  "\<forall>e\<in>set (fst es). \<not> is_icmp_output e \<Longrightarrow>
   \<forall>e\<in>set (fst (handle_packet cfg m dl ds j es)). \<not> is_icmp_output e"
  by (simp add: handle_packet_def Let_def)

lemma events_handle_packets_from:
  "\<forall>e\<in>set (fst es). \<not> is_icmp_output e \<Longrightarrow>
   \<forall>e\<in>set (fst (handle_packets_from cfg m dl ds j es)). \<not> is_icmp_output e"
proof (induction j arbitrary: es)
  case 0
  then show ?case by simp
next
  case (Suc j)
  show ?case using Suc.IH [OF events_handle_packet [OF Suc.prems]] by simp
qed

lemma icmp_out_handle_packet [simp]:
  "icmp_out (roll_trickle_stat (snd (handle_packet cfg m dl ds j es))) =
   icmp_out (roll_trickle_stat (snd es))"
  by (simp add: handle_packet_def Let_def)

lemma icmp_out_handle_packets_from [simp]:
  "icmp_out (roll_trickle_stat (snd (handle_packets_from cfg m dl ds j es))) =
   icmp_out (roll_trickle_stat (snd es))"
  by (induction j arbitrary: es) simp_all

lemma t_handle_timer_messages:
  "t (snd (handle_timer_messages cfg m now s)) =
   (t s)(m := (t s m)\<lparr>t_next := now, t_last_trigger := now\<rparr>)"
  by (simp add: handle_timer_messages_def Let_def)

lemma t_handle_timer_icmp [simp]: "t (snd (handle_timer_icmp cfg m es)) = t (snd es)"
  by (simp add: handle_timer_icmp_def icmp_output_def)

lemma t_handle_timer_done:
  "inconsistency (t (handle_timer_done m now' s) m) = 0 \<and>
   c (t (handle_timer_done m now' s) m) = 0 \<and>
   t (handle_timer_done m now' s) (\<not> m) = t s (\<not> m)"
  by (simp add: handle_timer_done_def Let_def)

lemma handle_timer_clears:
  assumes "handle_timer cfg (Timer m) True now now' rnd s = Inr (evs, s')"
  shows "inconsistency (t s' m) = 0 \<and> c (t s' m) = 0 \<and> t s' (\<not> m) = t s (\<not> m)"
proof -
  from assms have s': "s' = handle_timer_done m now' (snd (handle_timer_icmp cfg m (handle_timer_messages cfg m now s)))"
    by (auto simp: handle_timer_def Let_def)
  show ?thesis unfolding s'
    using t_handle_timer_done [of m now' "snd (handle_timer_icmp cfg m (handle_timer_messages cfg m now s))"]
    by (simp add: t_handle_timer_messages)
qed

lemma reset_trickle_timer_frame_lemma:
  assumes "reset_trickle_timer index now rnd s = Inr s'"
  shows "(\<forall>m. inconsistency (t s' m) = inconsistency (t s m)) \<and>
         t s' (\<not> index) = t s (\<not> index) \<and>
         i_min (t s' index) = i_min (t s index) \<and> i_max (t s' index) = i_max (t s index) \<and>
         k (t s' index) = k (t s index) \<and> t_active (t s' index) = t_active (t s index) \<and>
         t_dwell (t s' index) = t_dwell (t s index) \<and>
         t_last_trigger (t s' index) = t_last_trigger (t s index) \<and>
         windows s' = windows s \<and> buffered_msgs s' = buffered_msgs s \<and>
         loctpptr s' = loctpptr s \<and> last_seq s' = last_seq s \<and>
         roll_trickle_stat s' = roll_trickle_stat s \<and>
         ct (t s' index) = Some (t_next (t s' index), Handle_timer)"
  using reset_trickle_timer_Inr [OF assms] by auto

lemma accept_store_flag:
  assumes "accept_store cfg inp dg uip_len now rnd seed m sv i slot s = Inr (r, s')"
  shows "r = 1 \<and> inconsistency (t s' m) = 1 \<and>
         (inconsistency (t s m') \<noteq> 0 \<longrightarrow> inconsistency (t s' m') \<noteq> 0)"
  using assms unfolding accept_store_def Let_def
  by (auto simp: set_inconsistency_def STATS_ADD_mcast_in_unique_def
           split: option.splits sum.splits if_splits dest!: reset_trickle_timer_Inr)

lemma accept_new_flag:
  assumes "accept_new cfg inp dg uip_len now rnd seed m sv found s = Inr (r, s')"
  shows "(r = 1 \<longrightarrow> inconsistency (t s' m) = 1) \<and>
         (inconsistency (t s m') \<noteq> 0 \<longrightarrow> inconsistency (t s' m') \<noteq> 0)"
proof -
  have w: "t (snd (case found of None \<Rightarrow> window_allocate s | Some i \<Rightarrow> (Some i, s))) = t s"
    by (simp split: option.splits)
  show ?thesis
    using assms w unfolding accept_new_def Let_def
    by (auto simp: STATS_ADD_mcast_dropped_def split: option.splits if_splits
             dest!: accept_store_flag [where m' = m'])
qed

lemma accept_flag:
  assumes "roll_trickle_accept cfg inp dg uip_len now rnd s = Inr (r, s')"
  shows "(r = 1 \<longrightarrow> inconsistency (t s' (HBH_GET_M dg)) = 1) \<and>
         (inconsistency (t s m') \<noteq> 0 \<longrightarrow> inconsistency (t s' m') \<noteq> 0)"
  using assms unfolding roll_trickle_accept_def Let_def
  by (auto simp: STATS_ADD_mcast_dropped_def STATS_ADD_mcast_bad_def STATS_ADD_mcast_in_all_def
           split: if_splits dest!: accept_new_flag [where m' = m'])

lemma double_interval_flag:
  assumes "double_interval m now rnd s = Inr s'"
  shows "inconsistency (t s' m') = inconsistency (t s m')"
  using assms unfolding double_interval_def Let_def
  by (auto split: sum.splits if_splits)

text \<open>The concrete states are reached by runs of the engine from start-up.\<close>

lemma not_isl_projr: "\<not> isl x \<Longrightarrow> x = Inr (projr x)"
  by (cases x) simp_all


lemma reach_pair:
  "\<not> isl x \<Longrightarrow> fst (projr x) = r \<Longrightarrow> same_state (snd (projr x)) s \<Longrightarrow> x = Inr (r, s)"
  by (cases x) (auto dest: same_state_eq)

lemma reach_state: "\<not> isl x \<Longrightarrow> same_state (projr x) s \<Longrightarrow> x = Inr s"
  by (cases x) (auto dest: same_state_eq)

lemma init_reaches: "roll_trickle_init cfg0 0 0 0 0 0 0 st_boot = Inr st_init"
  by (rule reach_state) code_simp+

lemma one_reaches:
  "roll_trickle_accept cfg0 1 (mcast_dgram seed_a 0 5) 48 0 0 st_init = Inr (1, st_one)"
  by (rule reach_pair) code_simp+

lemma full_reaches:
  "roll_trickle_accept cfg0 1 (mcast_dgram seed_b 0 5) 48 0 0 st_one = Inr (1, st_full)"
  by (rule reach_pair) code_simp+

lemma two_reaches:
  "roll_trickle_accept cfg0 1 (mcast_dgram seed_a 0 8) 48 0 0 st_one = Inr (1, st_two)"
  by (rule reach_pair) code_simp+

lemma m1_reaches:
  "roll_trickle_accept cfg0 1 (mcast_dgram seed_a 0x80 5) 48 0 0 st_init = Inr (1, st_m1)"
  by (rule reach_pair) code_simp+

text \<open>
  Claim C9. When the redundancy constant \<open>k\<close> of controller \<open>m\<close> is the
  infinite-redundancy sentinel, a run of \<^verbatim>\<open>handle_timer\<close> for that controller never
  calls \<^verbatim>\<open>icmp_output\<close>, in any state: no event of the run is a control message and
  the counter of control messages sent is unchanged.
\<close>

theorem handle_timer_no_icmp_output:
  assumes "k (t s m) = ROLL_TRICKLE_INFINITE_REDUNDANCY cfg"
    and "handle_timer cfg (Timer m) ready now now' rnd s = Inr (evs, s')"
  shows "filter is_icmp_output evs = [] \<and>
         icmp_out (roll_trickle_stat s') = icmp_out (roll_trickle_stat s)"
proof (cases ready)
  case False
  with assms(2) show ?thesis
    by (auto simp: handle_timer_def split: sum.splits dest!: reset_trickle_timer_Inr)
next
  case True
  let ?es2 = "handle_timer_messages cfg m now s"
  have k2: "\<not> SUPPRESSION_ENABLED cfg (t (snd ?es2) m)"
    using assms(1) by (simp add: SUPPRESSION_ENABLED_def t_handle_timer_messages)
  then have i3: "handle_timer_icmp cfg m ?es2 = ?es2"
    by (simp add: handle_timer_icmp_def)
  have e2: "\<forall>e\<in>set (fst ?es2). \<not> is_icmp_output e"
    unfolding handle_timer_messages_def Let_def
    by (rule events_handle_packets_from) simp
  have i2: "icmp_out (roll_trickle_stat (snd ?es2)) = icmp_out (roll_trickle_stat s)"
    by (simp add: handle_timer_messages_def Let_def)
  from assms(2) True i3 have "evs = fst ?es2"
    and "s' = handle_timer_done m now' (snd ?es2)"
    by (auto simp: handle_timer_def Let_def)
  with e2 i2 show ?thesis
    by (simp add: handle_timer_done_def Let_def window_update_bounds_def filter_empty_conv)
qed


theorem handle_timer_no_icmp_output_witness:
  "k (t st_m1 True) = ROLL_TRICKLE_INFINITE_REDUNDANCY cfg0 \<and>
   handle_timer cfg0 (Timer True) True 10 11 0 st_m1 =
     Inr (projr (handle_timer cfg0 (Timer True) True 10 11 0 st_m1)) \<and>
   length (fst (projr (handle_timer cfg0 (Timer True) True 10 11 0 st_m1))) = 1 \<and>
   filter is_icmp_output (fst (projr (handle_timer cfg0 (Timer True) True 10 11 0 st_m1))) = []"
proof -
  have h1: "k (t st_m1 True) = ROLL_TRICKLE_INFINITE_REDUNDANCY cfg0" by code_simp
  have h0: "\<not> isl (handle_timer cfg0 (Timer True) True 10 11 0 st_m1)" by code_simp
  then have h2: "handle_timer cfg0 (Timer True) True 10 11 0 st_m1 =
     Inr (fst (projr (handle_timer cfg0 (Timer True) True 10 11 0 st_m1)),
          snd (projr (handle_timer cfg0 (Timer True) True 10 11 0 st_m1)))"
    by (simp add: not_isl_projr [symmetric])
  have h3: "length (fst (projr (handle_timer cfg0 (Timer True) True 10 11 0 st_m1))) = 1"
    by code_simp
  from handle_timer_no_icmp_output [OF h1 h2] h1 h3 not_isl_projr [OF h0] show ?thesis by blast
qed


section \<open>The counter update of control-message input\<close>

lemma icmp_input_timer_update:
  assumes "\<not> icmp_input_bad cfg dg icode"
    and "roll_trickle_icmp_input cfg dg icode sls now0 rnd0 now1 rnd1 s = Inr s'"
  shows "(inconsistency (t s m) \<noteq> 0 \<longrightarrow> inconsistency (t s' m) \<noteq> 0) \<and>
         (inconsistency (t s' m) = 0 \<longrightarrow>
            c (t s' m) = c (t s m) + 1 \<and> (t s' m)\<lparr>c := 0\<rparr> = (t s m)\<lparr>c := 0\<rparr>) \<and>
         (inconsistency (t s' m) \<noteq> 0 \<longrightarrow>
            i_current (t s' m) = 0 \<and> c (t s' m) = 0 \<and>
            t_start (t s' m) = (if m then now1 else now0) \<and>
            t_end (t s' m) = t_start (t s' m) + i_min (t s m) \<and>
            random_interval (i_min (t s m)) 0 (if m then rnd1 else rnd0) = Inr (t_next (t s' m)) \<and>
            ct (t s' m) = Some (t_next (t s' m), Handle_timer))"
proof -
  from assms obtain s1 s2 where
    p: "icmp_process cfg sls (STATS_ADD_icmp_in s) = Inr s1" and
    u0: "icmp_update_timer False now0 rnd0 s1 = Inr s2" and
    u1: "icmp_update_timer True now1 rnd1 s2 = Inr s'"
    unfolding roll_trickle_icmp_input_def by (auto split: sum.splits)
  have "timers_only_flagged (STATS_ADD_icmp_in s) s1" using p by (rule tof_icmp_process)
  then have f: "timers_only_flagged s s1"
    by (simp add: timers_only_flagged_def STATS_ADD_icmp_in_def)
  then have f1: "(t s1 m)\<lparr>inconsistency := 0\<rparr> = (t s m)\<lparr>inconsistency := 0\<rparr>"
    and f2: "inconsistency (t s m) \<noteq> 0 \<longrightarrow> inconsistency (t s1 m) \<noteq> 0"
    by (simp_all add: timers_only_flagged_def)
  from f1 have g: "c (t s1 m) = c (t s m)" "i_min (t s1 m) = i_min (t s m)"
    "(t s1 m)\<lparr>c := 0, inconsistency := 0\<rparr> = (t s m)\<lparr>c := 0, inconsistency := 0\<rparr>"
    by (cases "t s1 m"; cases "t s m"; simp)+
  have u: "(inconsistency (t s1 False) = 0 \<and>
              s2 = s1\<lparr>t := (t s1)(False := (t s1 False)\<lparr>c := c (t s1 False) + 1\<rparr>)\<rparr>) \<or>
           (inconsistency (t s1 False) \<noteq> 0 \<and> reset_trickle_timer False now0 rnd0 s1 = Inr s2)"
          "(inconsistency (t s2 True) = 0 \<and>
              s' = s2\<lparr>t := (t s2)(True := (t s2 True)\<lparr>c := c (t s2 True) + 1\<rparr>)\<rparr>) \<or>
           (inconsistency (t s2 True) \<noteq> 0 \<and> reset_trickle_timer True now1 rnd1 s2 = Inr s')"
    using u0 u1 unfolding icmp_update_timer_def by (auto split: if_splits)
  show ?thesis
  proof (cases m)
    case False
    from u show ?thesis
      using False f2 g
      by (cases "t s1 m"; cases "t s m")
         (auto dest!: reset_trickle_timer_Inr)
  next
    case True
    from u show ?thesis
      using True f2 g
      by (cases "t s1 m"; cases "t s m")
         (auto dest!: reset_trickle_timer_Inr)
  qed
qed


text \<open>
  Claim C3, as stated, fails: a controller whose inconsistency flag is already set when
  the message arrives is reset although the message causes no inconsistency. In the
  state after the admission of value 5 of \<open>seed_a\<close> the flag of controller 0 is set; the
  message \<open>msg_a5\<close> lists exactly that value, and processing it on the same tables with
  clear flags sets no flag. Yet after \<^verbatim>\<open>roll_trickle_icmp_input\<close> the counter \<open>c\<close> of
  controller 0 is 0, not \<open>c + 1 = 1\<close>.
\<close>

theorem icmp_input_flag_persists_counterexample:
  "\<not> icmp_input_bad cfg0 icmp_dgram 0 \<and>
   inconsistency (t (projr (icmp_process cfg0 msg_a5 (st_one\<lparr>t := t st_init\<rparr>))) False) = 0 \<and>
   inconsistency (t (projr (icmp_process cfg0 msg_a5 (st_one\<lparr>t := t st_init\<rparr>))) True) = 0 \<and>
   \<not> isl (roll_trickle_icmp_input cfg0 icmp_dgram 0 msg_a5 0 0 0 0 st_one) \<and>
   c (t (projr (roll_trickle_icmp_input cfg0 icmp_dgram 0 msg_a5 0 0 0 0 st_one)) False) = 0 \<and>
   c (t st_one False) + 1 = 1"
  by code_simp

text \<open>
  Claim C3, amended. For a control message that passes the header checks and is
  processed without a fault, and for each controller \<open>m\<close>: processing never clears an
  inconsistency flag; if the flag of \<open>m\<close> is clear at the end, \<open>c\<close> is incremented by
  one (modulo 256) and nothing else of the controller changes; if it is set at the end
  --- by this message or from before --- the controller is reset instead: \<open>i_current\<close>
  and \<open>c\<close> are 0, a new interval starts at the clock value read and the timer is armed
  for \<^verbatim>\<open>handle_timer\<close> at a fresh random point. The payload is arbitrary, so this
  covers a parse that leaves by \<^verbatim>\<open>goto drop\<close>.
\<close>

theorem icmp_input_counter_update:
  assumes "\<not> icmp_input_bad cfg dg icode"
    and "roll_trickle_icmp_input cfg dg icode sls now0 rnd0 now1 rnd1 s = Inr s'"
  shows "(inconsistency (t s m) \<noteq> 0 \<longrightarrow> inconsistency (t s' m) \<noteq> 0) \<and>
         (inconsistency (t s' m) = 0 \<longrightarrow>
            c (t s' m) = c (t s m) + 1 \<and> (t s' m)\<lparr>c := 0\<rparr> = (t s m)\<lparr>c := 0\<rparr>) \<and>
         (inconsistency (t s' m) \<noteq> 0 \<longrightarrow>
            i_current (t s' m) = 0 \<and> c (t s' m) = 0 \<and>
            t_start (t s' m) = (if m then now1 else now0) \<and>
            t_end (t s' m) = t_start (t s' m) + i_min (t s m) \<and>
            random_interval (i_min (t s m)) 0 (if m then rnd1 else rnd0) = Inr (t_next (t s' m)) \<and>
            ct (t s' m) = Some (t_next (t s' m), Handle_timer))"
  using assms by (rule icmp_input_timer_update)


theorem icmp_input_counter_update_witness:
  "\<not> icmp_input_bad cfg0 icmp_dgram 0 \<and>
   roll_trickle_icmp_input cfg0 icmp_dgram 0 msg_a5 7 0 9 0 st_one =
     Inr (projr (roll_trickle_icmp_input cfg0 icmp_dgram 0 msg_a5 7 0 9 0 st_one)) \<and>
   inconsistency (t (projr (roll_trickle_icmp_input cfg0 icmp_dgram 0 msg_a5 7 0 9 0 st_one)) False) = 1 \<and>
   inconsistency (t (projr (roll_trickle_icmp_input cfg0 icmp_dgram 0 msg_a5 7 0 9 0 st_one)) True) = 0 \<and>
   c (t (projr (roll_trickle_icmp_input cfg0 icmp_dgram 0 msg_a5 7 0 9 0 st_one)) True) =
     c (t st_one True) + 1 \<and>
   t_start (t (projr (roll_trickle_icmp_input cfg0 icmp_dgram 0 msg_a5 7 0 9 0 st_one)) False) = 7 \<and>
   c (t (projr (roll_trickle_icmp_input cfg0 icmp_dgram 0 msg_a5 7 0 9 0 st_one)) False) = 0"
proof -
  let ?X = "roll_trickle_icmp_input cfg0 icmp_dgram 0 msg_a5 7 0 9 0 st_one"
  have h1: "\<not> icmp_input_bad cfg0 icmp_dgram 0" by code_simp
  have "\<not> isl ?X" by code_simp
  then have h2: "?X = Inr (projr ?X)" by (rule not_isl_projr)
  have f0: "inconsistency (t (projr ?X) False) = 1" by code_simp
  have f1: "inconsistency (t (projr ?X) True) = 0" by code_simp
  from icmp_input_counter_update [OF h1 h2, of False] icmp_input_counter_update [OF h1 h2, of True]
    h1 h2 f0 f1
  show ?thesis by simp
qed

section \<open>The frame of a timer reset\<close>

text \<open>
  Claim C10. \<^verbatim>\<open>reset_trickle_timer\<close> for controller \<open>index\<close> changes only \<open>t_start\<close>,
  \<open>t_end\<close>, \<open>i_current\<close>, \<open>c\<close> and \<open>t_next\<close> of that controller and re-arms its timer
  for \<^verbatim>\<open>handle_timer\<close>; the inconsistency flags of both controllers, the other
  controller, the configuration fields, the windows, the packets and the other statics
  are unchanged. So the flag that an admission sets is still set when
  \<^verbatim>\<open>roll_trickle_accept\<close> returns 1; a control message that arrives while it is set
  resets the controller instead of incrementing \<open>c\<close>; \<^verbatim>\<open>double_interval\<close> leaves it as
  it is; and the next pass of \<^verbatim>\<open>handle_timer\<close> for the controller clears it.
\<close>

theorem reset_trickle_timer_keeps_inconsistency:
  "(reset_trickle_timer index now rnd s = Inr s1 \<longrightarrow>
      (\<forall>m. inconsistency (t s1 m) = inconsistency (t s m)) \<and>
      t s1 (\<not> index) = t s (\<not> index) \<and>
      i_min (t s1 index) = i_min (t s index) \<and> i_max (t s1 index) = i_max (t s index) \<and>
      k (t s1 index) = k (t s index) \<and> t_active (t s1 index) = t_active (t s index) \<and>
      t_dwell (t s1 index) = t_dwell (t s index) \<and>
      t_last_trigger (t s1 index) = t_last_trigger (t s index) \<and>
      windows s1 = windows s \<and> buffered_msgs s1 = buffered_msgs s \<and>
      loctpptr s1 = loctpptr s \<and> last_seq s1 = last_seq s \<and>
      roll_trickle_stat s1 = roll_trickle_stat s \<and>
      ct (t s1 index) = Some (t_next (t s1 index), Handle_timer)) \<and>
   (roll_trickle_accept cfg inp dg uip_len now rnd s = Inr (1, s2) \<longrightarrow>
      inconsistency (t s2 (HBH_GET_M dg)) = 1) \<and>
   (inconsistency (t s m) \<noteq> 0 \<and> \<not> icmp_input_bad cfg dg' icode \<and>
    roll_trickle_icmp_input cfg dg' icode sls now0 rnd0 now1 rnd1 s = Inr s3 \<longrightarrow>
      inconsistency (t s3 m) \<noteq> 0 \<and> c (t s3 m) = 0 \<and> i_current (t s3 m) = 0) \<and>
   (double_interval m now rnd s = Inr s4 \<longrightarrow>
      inconsistency (t s4 m') = inconsistency (t s m')) \<and>
   (handle_timer cfg (Timer m) True now now' rnd s = Inr (evs, s5) \<longrightarrow>
      inconsistency (t s5 m) = 0)"
proof (intro conjI impI)
  assume "handle_timer cfg (Timer m) True now now' rnd s = Inr (evs, s5)"
  then show "inconsistency (t s5 m) = 0" by (simp add: handle_timer_clears)
next
  assume "double_interval m now rnd s = Inr s4"
  then show "inconsistency (t s4 m') = inconsistency (t s m')" by (rule double_interval_flag)
next
  assume "roll_trickle_accept cfg inp dg uip_len now rnd s = Inr (1, s2)"
  then show "inconsistency (t s2 (HBH_GET_M dg)) = 1" using accept_flag by blast
next
  assume a: "inconsistency (t s m) \<noteq> 0 \<and> \<not> icmp_input_bad cfg dg' icode \<and>
    roll_trickle_icmp_input cfg dg' icode sls now0 rnd0 now1 rnd1 s = Inr s3"
  then have b: "inconsistency (t s3 m) \<noteq> 0 \<and> c (t s3 m) = 0 \<and> i_current (t s3 m) = 0"
    using icmp_input_timer_update [of cfg dg' icode sls now0 rnd0 now1 rnd1 s s3 m] by blast
  from b show "inconsistency (t s3 m) \<noteq> 0" by simp
  from b show "c (t s3 m) = 0" by simp
  from b show "i_current (t s3 m) = 0" by simp
qed (use reset_trickle_timer_frame_lemma in blast)+


theorem reset_trickle_timer_keeps_inconsistency_witness:
  "reset_trickle_timer False 0 0 st_one = Inr (projr (reset_trickle_timer False 0 0 st_one)) \<and>
   inconsistency (t (projr (reset_trickle_timer False 0 0 st_one)) False) = 1 \<and>
   roll_trickle_accept cfg0 1 (mcast_dgram seed_b 0 5) 48 0 0 st_one = Inr (1, st_full) \<and>
   inconsistency (t st_full False) = 1 \<and>
   inconsistency (t st_one False) \<noteq> 0 \<and> \<not> icmp_input_bad cfg0 icmp_dgram 0 \<and>
   roll_trickle_icmp_input cfg0 icmp_dgram 0 msg_a5 0 0 0 0 st_one =
     Inr (projr (roll_trickle_icmp_input cfg0 icmp_dgram 0 msg_a5 0 0 0 0 st_one)) \<and>
   c (t (projr (roll_trickle_icmp_input cfg0 icmp_dgram 0 msg_a5 0 0 0 0 st_one)) False) = 0 \<and>
   double_interval False 0 0 st_one = Inr (projr (double_interval False 0 0 st_one)) \<and>
   inconsistency (t (projr (double_interval False 0 0 st_one)) False) = 1 \<and>
   handle_timer cfg0 (Timer False) True 0 0 0 st_one =
     Inr (projr (handle_timer cfg0 (Timer False) True 0 0 0 st_one)) \<and>
   inconsistency (t (snd (projr (handle_timer cfg0 (Timer False) True 0 0 0 st_one))) False) = 0"
proof -
  let ?X1 = "reset_trickle_timer False 0 0 st_one"
  let ?X3 = "roll_trickle_icmp_input cfg0 icmp_dgram 0 msg_a5 0 0 0 0 st_one"
  let ?X4 = "double_interval False 0 0 st_one"
  let ?X5 = "handle_timer cfg0 (Timer False) True 0 0 0 st_one"
  have "\<not> isl ?X1" by code_simp
  then have h1: "?X1 = Inr (projr ?X1)" by (rule not_isl_projr)
  have h2: "roll_trickle_accept cfg0 1 (mcast_dgram seed_b 0 5) 48 0 0 st_one = Inr (1, st_full)"
    by (rule full_reaches)
  have m2: "HBH_GET_M (mcast_dgram seed_b 0 5) = False" by code_simp
  have f: "inconsistency (t st_one False) = 1" by code_simp
  have h3a: "\<not> icmp_input_bad cfg0 icmp_dgram 0" by code_simp
  have "\<not> isl ?X3" by code_simp
  then have h3: "?X3 = Inr (projr ?X3)" by (rule not_isl_projr)
  have "\<not> isl ?X4" by code_simp
  then have h4: "?X4 = Inr (projr ?X4)" by (rule not_isl_projr)
  have "\<not> isl ?X5" by code_simp
  then have h5: "?X5 = Inr (projr ?X5)" by (rule not_isl_projr)
  then have h5': "?X5 = Inr (fst (projr ?X5), snd (projr ?X5))" by simp
  note inst = reset_trickle_timer_keeps_inconsistency
    [where index = False and now = 0 and rnd = 0 and s = st_one and ?s1.0 = "projr ?X1"
       and cfg = cfg0 and inp = 1 and dg = "mcast_dgram seed_b 0 5" and uip_len = 48
       and ?s2.0 = st_full and m = False and dg' = icmp_dgram and icode = 0 and sls = msg_a5
       and ?now0.0 = 0 and ?rnd0.0 = 0 and ?now1.0 = 0 and ?rnd1.0 = 0 and ?s3.0 = "projr ?X3"
       and ?s4.0 = "projr ?X4" and m' = False and now' = 0
       and evs = "fst (projr ?X5)" and ?s5.0 = "snd (projr ?X5)"]
  have c1: "inconsistency (t (projr ?X1) False) = 1" using inst h1 f by simp
  have c2: "inconsistency (t st_full False) = 1" using inst h2 m2 by simp
  have c3: "c (t (projr ?X3) False) = 0" using inst h3 h3a f by simp
  have c4: "inconsistency (t (projr ?X4) False) = 1" using inst h4 f by simp
  have c5: "inconsistency (t (snd (projr ?X5)) False) = 0" using inst h5' by simp
  from h1 h2 h3 h3a h4 h5 f c1 c2 c3 c4 c5 show ?thesis by simp
qed

section \<open>Admission with a full buffer\<close>

lemma quiet_reaches:
  "\<not> isl (handle_timer cfg0 (Timer False) True 0 0 0 st_one) \<and>
   snd (projr (handle_timer cfg0 (Timer False) True 0 0 0 st_one)) = st_quiet"
proof -
  have "same_state (snd (projr (handle_timer cfg0 (Timer False) True 0 0 0 st_one))) st_quiet"
    by code_simp
  moreover have "\<not> isl (handle_timer cfg0 (Timer False) True 0 0 0 st_one)" by code_simp
  ultimately show ?thesis by (simp add: same_state_eq)
qed

text \<open>
  Claim C1 says that \<^verbatim>\<open>roll_trickle_accept\<close> drops the datagram whenever neither
  \<^verbatim>\<open>buffer_allocate\<close> nor \<^verbatim>\<open>buffer_reclaim\<close> yields a slot. Evaluated on the code: in
  the state \<open>st_full\<close> both slots are taken, each of the two windows holds one packet,
  and a datagram of seed \<open>seed_a\<close> with the new value 6 arrives. Allocation and
  reclamation both fail; the window of \<open>seed_a\<close> has count 1, not 0, so the source
  does not return: it runs on, increments the count to 2 and writes through the null
  slot pointer.
\<close>

theorem accept_full_buffer_null_write:
  "buffer_allocate st_full = None \<and>
   fst (buffer_reclaim st_full) = None \<and>
   window_lookup st_full seed_a False = Some 1 \<and>
   count (windows st_full ! 1) = 1 \<and>
   count (accept_window seed_a False 6 (windows st_full ! 1)) = 2 \<and>
   roll_trickle_accept cfg0 1 (mcast_dgram seed_a 0 6) 48 0 0 st_full = Inl Null_packet_write"
  by code_simp

section \<open>The controller flagged by the scan of the buffer\<close>

text \<open>
  Claim C2 says that for a used packet whose window was not listed the scan sets the
  inconsistency flag of the controller of that window's parametrization. Evaluated on
  the code: in \<open>st_quiet\<close> the only used packet belongs to a window of parametrization
  0 and both flags are clear; the message \<open>msg_b1\<close> lists one seed, unknown to the
  node, under parametrization 1. The scan marks the packet must-send but stores the
  flag through \<^verbatim>\<open>loctpptr\<close>, which the last sequence list left at controller 1: the
  flag of controller 0 stays clear and its \<open>c\<close> is incremented. With an empty payload
  right after the first admission \<^verbatim>\<open>loctpptr\<close> is still null and the store is a null
  write.
\<close>

theorem icmp_scan_flags_last_listed_controller:
  "MCAST_PACKET_IS_USED (buffered_msgs st_quiet ! 1) \<and>
   sw (buffered_msgs st_quiet ! 1) = 1 \<and>
   SLIDING_WINDOW_GET_M (windows st_quiet ! 1) = False \<and>
   inconsistency (t st_quiet False) = 0 \<and>
   \<not> MCAST_PACKET_MUST_SEND (buffered_msgs st_quiet ! 1) \<and>
   \<not> isl (roll_trickle_icmp_input cfg0 icmp_dgram 0 msg_b1 0 0 0 0 st_quiet) \<and>
   \<not> SLIDING_WINDOW_IS_LISTED
       (windows (projr (roll_trickle_icmp_input cfg0 icmp_dgram 0 msg_b1 0 0 0 0 st_quiet)) ! 1) \<and>
   MCAST_PACKET_MUST_SEND
     (buffered_msgs (projr (roll_trickle_icmp_input cfg0 icmp_dgram 0 msg_b1 0 0 0 0 st_quiet)) ! 1) \<and>
   inconsistency (t (projr (roll_trickle_icmp_input cfg0 icmp_dgram 0 msg_b1 0 0 0 0 st_quiet)) False) = 0 \<and>
   c (t (projr (roll_trickle_icmp_input cfg0 icmp_dgram 0 msg_b1 0 0 0 0 st_quiet)) False) = 1 \<and>
   inconsistency (t (projr (roll_trickle_icmp_input cfg0 icmp_dgram 0 msg_b1 0 0 0 0 st_quiet)) True) = 1 \<and>
   roll_trickle_icmp_input cfg0 icmp_dgram 0 [] 0 0 0 0 st_one = Inl Null_timer_write"
  by code_simp

section \<open>Serial order within half the sequence space\<close>

lemma seq_off_cases:
  assumes "0 \<le> b" "b \<le> 0x7FFF" "0 \<le> v" "v \<le> 0x7FFF"
  shows "(b \<le> v \<and> seq_off b v = v - b) \<or> (v < b \<and> seq_off b v = v - b + 0x8000)"
proof (cases "b \<le> v")
  case True
  then have "(v - b) mod 0x8000 = v - b" using assms by (intro mod_pos_pos_trivial) auto
  with True show ?thesis by (simp add: seq_off_def)
next
  case False
  then have "(v - b) mod 0x8000 = v - b + 0x8000" using assms by (intro mod_0x8000_neg) auto
  with False show ?thesis by (simp add: seq_off_def)
qed

lemma seq_cmp_off:
  assumes b: "0 \<le> b" "b \<le> 0x7FFF" and x: "0 \<le> x" "x \<le> 0x7FFF" and y: "0 \<le> y" "y \<le> 0x7FFF"
    and ox: "seq_off b x < 0x4000" and oy: "seq_off b y < 0x4000"
  shows "SEQ_VAL_IS_LT x y \<longleftrightarrow> seq_off b x < seq_off b y"
    and "SEQ_VAL_IS_GT x y \<longleftrightarrow> seq_off b x > seq_off b y"
    and "x = y \<longleftrightarrow> seq_off b x = seq_off b y"
proof -
  have c1: "int16_cast (y - x) = y - x" using x y by (intro int16_cast_id) linarith+
  have c2: "int16_cast (x - y) = x - y" using x y by (intro int16_cast_id) linarith+
  note cx = seq_off_cases [OF b x] and cy = seq_off_cases [OF b y]
  show "SEQ_VAL_IS_LT x y \<longleftrightarrow> seq_off b x < seq_off b y"
    unfolding SEQ_VAL_IS_LT_def c1 c2 using cx cy ox oy x y b by linarith
  show "SEQ_VAL_IS_GT x y \<longleftrightarrow> seq_off b x > seq_off b y"
    unfolding SEQ_VAL_IS_GT_def c1 c2 using cx cy ox oy x y b by linarith
  show "x = y \<longleftrightarrow> seq_off b x = seq_off b y"
    using cx cy ox oy x y b by linarith
qed

lemma seq_not_lt_off:
  assumes y: "0 \<le> y" "y \<le> 0x7FFF" and x: "0 \<le> x" "x \<le> 0x7FFF"
  shows "\<not> SEQ_VAL_IS_LT x y \<longleftrightarrow> seq_off y x \<le> 0x4000"
proof -
  have c1: "int16_cast (y - x) = y - x" using x y by (intro int16_cast_id) linarith+
  have c2: "int16_cast (x - y) = x - y" using x y by (intro int16_cast_id) linarith+
  note cx = seq_off_cases [OF y x]
  show ?thesis unfolding SEQ_VAL_IS_LT_def c1 c2 using cx x y by linarith
qed

lemma seq_off_self [simp]: "seq_off b b = 0"
  by (simp add: seq_off_def)

lemma seq_off_range: "0 \<le> seq_off b v \<and> seq_off b v < 0x8000"
  by (simp add: seq_off_def)

lemma seq_off_rebase:
  assumes "seq_off b b' \<le> seq_off b v"
  shows "seq_off b' v = seq_off b v - seq_off b b'"
proof -
  have "(v - b') mod 0x8000 = ((v - b) mod 0x8000 - (b' - b) mod 0x8000) mod 0x8000"
    by (simp add: mod_diff_eq)
  also have "\<dots> = (v - b) mod 0x8000 - (b' - b) mod 0x8000"
    using assms seq_off_range [of b v] seq_off_range [of b b']
    by (intro mod_pos_pos_trivial) (simp_all add: seq_off_def)
  finally show ?thesis by (simp add: seq_off_def)
qed


section \<open>Attached packets\<close>

lemma set_attached:
  "set (attached s i) =
     {j. j < length (buffered_msgs s) \<and> MCAST_PACKET_IS_USED (buffered_msgs s ! j) \<and>
         sw (buffered_msgs s ! j) = i}"
  by (auto simp: attached_def)

lemma distinct_attached: "distinct (attached s i)"
  by (simp add: attached_def)

lemma attached_Nil_iff:
  "attached s i = [] \<longleftrightarrow>
     (\<forall>j<length (buffered_msgs s). MCAST_PACKET_IS_USED (buffered_msgs s ! j) \<longrightarrow>
        sw (buffered_msgs s ! j) \<noteq> i)"
proof -
  have "attached s i = [] \<longleftrightarrow> set (attached s i) = {}" by simp
  then show ?thesis unfolding set_attached by auto
qed

lemma length_attached: "length (attached s i) = card (set (attached s i))"
  by (simp add: distinct_card distinct_attached)

lemma set_icmp_output_seqs:
  "set (icmp_output_seqs n ps i) =
     {seq_val (ps ! j) | j. j < n \<and> MCAST_PACKET_IS_USED (ps ! j) \<and> sw (ps ! j) = i}"
  by (induction n) (auto simp: less_Suc_eq)

lemma set_attached_seqs:
  "set (attached_seqs s i) = (\<lambda>j. seq_val (buffered_msgs s ! j)) ` set (attached s i)"
  unfolding attached_seqs_def set_icmp_output_seqs set_attached by auto

lemma attached_seqs_Nil_iff: "attached_seqs s i = [] \<longleftrightarrow> attached s i = []"
proof -
  have "attached_seqs s i = [] \<longleftrightarrow> set (attached_seqs s i) = {}" by simp
  also have "\<dots> \<longleftrightarrow> set (attached s i) = {}" unfolding set_attached_seqs by simp
  finally show ?thesis by simp
qed

section \<open>The folds of the bounds\<close>

lemma sint16_formula: "sint (v :: 16 word) = (uint v + 0x8000) mod 0x10000 - 0x8000"
  using int_word_sint [of "uint v", where ?'a = 16] by (simp add: word_of_int_uint)

lemma seq15_ints:
  assumes "(v :: 16 word) \<le> 0x7FFF"
  shows "sint v = uint v \<and> 0 \<le> uint v \<and> uint v \<le> 0x7FFF"
proof -
  from assms have r: "0 \<le> uint v" "uint v \<le> 0x7FFF" by (simp_all add: word_le_def)
  have "(uint v + 0x8000) mod 0x10000 = uint v + 0x8000"
    using r by (intro mod_pos_pos_trivial) simp_all
  then show ?thesis using r by (simp add: sint16_formula)
qed

lemma sint_nonneg_seq15:
  assumes "0 \<le> sint (v :: 16 word)"
  shows "v \<le> 0x7FFF"
proof -
  have "uint v \<le> 0x7FFF"
  proof (rule ccontr)
    assume "\<not> uint v \<le> 0x7FFF"
    then have h: "0x8000 \<le> uint v" by simp
    have u: "uint v < 0x10000" using uint_lt2p [of v] by simp
    have 1: "(uint v - 0x8000 + 0x10000) mod 0x10000 = (uint v - 0x8000) mod 0x10000"
      by (rule mod_add_self2)
    have 2: "(uint v - 0x8000) mod 0x10000 = uint v - 0x8000"
      using h u by (intro mod_pos_pos_trivial) simp_all
    have 3: "uint v - 0x8000 + 0x10000 = uint v + 0x8000" by simp
    have "sint v = uint v - 0x8000 - 0x8000"
      unfolding sint16_formula using 1 2 3 by simp
    with u assms show False by simp
  qed
  then show ?thesis by (simp add: word_le_def)
qed

lemma lower_step_mem: "fold lower_step vs cur \<in> set (cur # vs)"
proof (induction vs arbitrary: cur)
  case Nil
  show ?case by simp
next
  case (Cons v vs)
  have 1: "fold lower_step vs (lower_step v cur) \<in> set (lower_step v cur # vs)" by (rule Cons.IH)
  have 2: "lower_step v cur = v \<or> lower_step v cur = cur" by (simp add: lower_step_def)
  from 1 2 show ?case by auto
qed

lemma upper_step_mem: "fold upper_step vs cur \<in> set (cur # vs)"
proof (induction vs arbitrary: cur)
  case Nil
  show ?case by simp
next
  case (Cons v vs)
  have 1: "fold upper_step vs (upper_step v cur) \<in> set (upper_step v cur # vs)" by (rule Cons.IH)
  have 2: "upper_step v cur = v \<or> upper_step v cur = cur" by (simp add: upper_step_def)
  from 1 2 show ?case by auto
qed

lemma lower_step_mem_neg:
  assumes "sint cur < 0" "vs \<noteq> []"
  shows "fold lower_step vs cur \<in> set vs"
proof (cases vs)
  case Nil
  with assms show ?thesis by simp
next
  case (Cons v vs')
  have 1: "fold lower_step vs' v \<in> set (v # vs')" by (rule lower_step_mem)
  have 2: "lower_step v cur = v" using assms(1) by (simp add: lower_step_def)
  from 1 2 show ?thesis using Cons by simp
qed

lemma upper_step_mem_neg:
  assumes "sint cur < 0" "vs \<noteq> []"
  shows "fold upper_step vs cur \<in> set vs"
proof (cases vs)
  case Nil
  with assms show ?thesis by simp
next
  case (Cons v vs')
  have 1: "fold upper_step vs' v \<in> set (v # vs')" by (rule upper_step_mem)
  have 2: "upper_step v cur = v" using assms(1) by (simp add: upper_step_def)
  from 1 2 show ?thesis using Cons by simp
qed

text \<open>Within half the sequence space the fold of the lower bounds yields a value of
  least distance from the base, that of the upper bounds one of greatest distance.\<close>

lemma lower_step_min:
  assumes "0 \<le> b" "b \<le> 0x7FFF" "within_half_window b (cur # vs)"
  shows "\<forall>v\<in>set (cur # vs). seq_off b (uint (fold lower_step vs cur)) \<le> seq_off b (uint v)"
  using assms(3)
proof (induction vs arbitrary: cur)
  case Nil
  show ?case by simp
next
  case (Cons v vs)
  from Cons.prems have cv: "cur \<le> 0x7FFF" "seq_off b (uint cur) < 0x4000"
    "v \<le> 0x7FFF" "seq_off b (uint v) < 0x4000" and rest: "within_half_window b vs"
    by (simp_all add: within_half_window_def)
  note ic = seq15_ints [OF cv(1)] and iv = seq15_ints [OF cv(3)]
  have lt: "SEQ_VAL_IS_LT (uint v) (sint cur) \<longleftrightarrow> seq_off b (uint v) < seq_off b (uint cur)"
    using seq_cmp_off(1) [OF assms(1,2), of "uint v" "uint cur"] ic iv cv by simp
  let ?c = "lower_step v cur"
  have c: "?c = (if seq_off b (uint v) < seq_off b (uint cur) then v else cur)"
    using lt ic by (simp add: lower_step_def)
  have w: "within_half_window b (?c # vs)"
    using Cons.prems c by (simp add: within_half_window_def)
  have ih: "\<forall>x\<in>set (?c # vs). seq_off b (uint (fold lower_step vs ?c)) \<le> seq_off b (uint x)"
    by (rule Cons.IH [OF w])
  then have "seq_off b (uint (fold lower_step vs ?c)) \<le> seq_off b (uint ?c)" by simp
  moreover have "seq_off b (uint ?c) \<le> seq_off b (uint cur)" "seq_off b (uint ?c) \<le> seq_off b (uint v)"
    using c by simp_all
  ultimately show ?case using ih by auto
qed

lemma upper_step_max:
  assumes "0 \<le> b" "b \<le> 0x7FFF" "within_half_window b (cur # vs)"
  shows "\<forall>v\<in>set (cur # vs). seq_off b (uint v) \<le> seq_off b (uint (fold upper_step vs cur))"
  using assms(3)
proof (induction vs arbitrary: cur)
  case Nil
  show ?case by simp
next
  case (Cons v vs)
  from Cons.prems have cv: "cur \<le> 0x7FFF" "seq_off b (uint cur) < 0x4000"
    "v \<le> 0x7FFF" "seq_off b (uint v) < 0x4000" and rest: "within_half_window b vs"
    by (simp_all add: within_half_window_def)
  note ic = seq15_ints [OF cv(1)] and iv = seq15_ints [OF cv(3)]
  have gt: "SEQ_VAL_IS_GT (uint v) (sint cur) \<longleftrightarrow> seq_off b (uint v) > seq_off b (uint cur)"
    using seq_cmp_off(2) [OF assms(1,2), of "uint v" "uint cur"] ic iv cv by simp
  let ?c = "upper_step v cur"
  have c: "?c = (if seq_off b (uint v) > seq_off b (uint cur) then v else cur)"
    using gt ic by (simp add: upper_step_def)
  have w: "within_half_window b (?c # vs)"
    using Cons.prems c by (simp add: within_half_window_def)
  have ih: "\<forall>x\<in>set (?c # vs). seq_off b (uint x) \<le> seq_off b (uint (fold upper_step vs ?c))"
    by (rule Cons.IH [OF w])
  then have "seq_off b (uint ?c) \<le> seq_off b (uint (fold upper_step vs ?c))" by simp
  moreover have "seq_off b (uint cur) \<le> seq_off b (uint ?c)" "seq_off b (uint v) \<le> seq_off b (uint ?c)"
    using c by simp_all
  ultimately show ?case using ih by auto
qed



section \<open>The effect of the update of the bounds\<close>

lemma length_update_bounds_packet [simp]:
  "length (update_bounds_packet p ws) = length ws"
  by (simp add: update_bounds_packet_def Let_def)

lemma nth_update_bounds_packet:
  assumes "i < length ws"
  shows "update_bounds_packet p ws ! i =
           (if MCAST_PACKET_IS_USED p \<and> sw p = i
            then (ws ! i)\<lparr>lower_bound := lower_step (seq_val p) (lower_bound (ws ! i)),
                          upper_bound := upper_step (seq_val p) (upper_bound (ws ! i))\<rparr>
            else ws ! i)"
  using assms
  by (cases "ws ! i") (auto simp: update_bounds_packet_def Let_def lower_step_def upper_step_def)

lemma length_update_bounds_from [simp]:
  "length (update_bounds_from n ps ws) = length ws"
  by (induction n arbitrary: ws) simp_all

lemma nth_update_bounds_from:
  assumes "i < length ws"
  shows "update_bounds_from n ps ws ! i =
           (ws ! i)\<lparr>lower_bound := fold lower_step (icmp_output_seqs n ps i) (lower_bound (ws ! i)),
                     upper_bound := fold upper_step (icmp_output_seqs n ps i) (upper_bound (ws ! i))\<rparr>"
  using assms
proof (induction n arbitrary: ws)
  case 0
  show ?case by simp
next
  case (Suc j)
  let ?ws = "update_bounds_packet (ps ! j) ws"
  have i: "i < length ?ws" using Suc.prems by simp
  show ?case
    using Suc.IH [OF i] nth_update_bounds_packet [OF Suc.prems, of "ps ! j"]
    by simp
qed

lemma buffered_msgs_window_update_bounds [simp]:
  "buffered_msgs (window_update_bounds s) = buffered_msgs s"
  by (simp add: window_update_bounds_def)

lemma length_windows_window_update_bounds [simp]:
  "length (windows (window_update_bounds s)) = length (windows s)"
  by (simp add: window_update_bounds_def)

lemma attached_window_update_bounds [simp]:
  "attached (window_update_bounds s) i = attached s i"
  by (simp add: attached_def)

lemma nth_window_update_bounds:
  assumes "i < length (windows s)"
  shows "windows (window_update_bounds s) ! i =
           (windows s ! i)\<lparr>lower_bound := fold lower_step (attached_seqs s i) (- 1),
                            upper_bound := fold upper_step (attached_seqs s i)
                                             (upper_bound (windows s ! i))\<rparr>"
  using assms
  by (simp add: window_update_bounds_def nth_update_bounds_from attached_seqs_def)


lemma all_less_set_upt: "(\<forall>i<n. P i) \<longleftrightarrow> (\<forall>i\<in>set [0..<n]. P i)"
  by auto

lemma lower_step_minus1 [simp]: "lower_step v (- 1) = v"
  by (simp add: lower_step_def)

lemma fold_lower_step_neg:
  "sint cur < 0 \<Longrightarrow> fold lower_step (v # vs) cur = fold lower_step vs v"
  by (simp add: lower_step_def)

lemma fold_upper_step_neg:
  "sint cur < 0 \<Longrightarrow> fold upper_step (v # vs) cur = fold upper_step vs v"
  by (simp add: upper_step_def)


lemma window_update_bounds_lower:
  assumes "i < length (windows s)" "attached_seqs s i \<noteq> []"
    and "0 \<le> b" "b \<le> 0x7FFF" "within_half_window b (attached_seqs s i)"
  shows "lower_bound (windows (window_update_bounds s) ! i) \<in> set (attached_seqs s i) \<and>
         (\<forall>v\<in>set (attached_seqs s i).
            seq_off b (uint (lower_bound (windows (window_update_bounds s) ! i))) \<le> seq_off b (uint v))"
proof -
  let ?A = "attached_seqs s i"
  obtain v0 vs where A: "?A = v0 # vs" using assms(2) by (cases ?A) auto
  have l: "lower_bound (windows (window_update_bounds s) ! i) = fold lower_step vs v0"
    using nth_window_update_bounds [OF assms(1)] A by simp
  have "fold lower_step vs v0 \<in> set (v0 # vs)" by (rule lower_step_mem)
  moreover have "\<forall>v\<in>set (v0 # vs). seq_off b (uint (fold lower_step vs v0)) \<le> seq_off b (uint v)"
    using assms(5) unfolding A by (rule lower_step_min [OF assms(3,4)])
  ultimately show ?thesis unfolding l A by simp
qed

lemma window_update_bounds_upper:
  assumes "i < length (windows s)"
    and "0 \<le> b" "b \<le> 0x7FFF" "within_half_window b (attached_seqs s i)"
  shows "sint (upper_bound (windows s ! i)) < 0 \<and> attached_seqs s i \<noteq> [] \<longrightarrow>
           upper_bound (windows (window_update_bounds s) ! i) \<in> set (attached_seqs s i) \<and>
           (\<forall>v\<in>set (attached_seqs s i).
              seq_off b (uint v) \<le> seq_off b (uint (upper_bound (windows (window_update_bounds s) ! i))))"
    and "0 \<le> sint (upper_bound (windows s ! i)) \<and> seq_off b (sint (upper_bound (windows s ! i))) < 0x4000 \<longrightarrow>
           upper_bound (windows (window_update_bounds s) ! i) \<in>
             set (upper_bound (windows s ! i) # attached_seqs s i) \<and>
           (\<forall>v\<in>set (upper_bound (windows s ! i) # attached_seqs s i).
              seq_off b (uint v) \<le> seq_off b (uint (upper_bound (windows (window_update_bounds s) ! i))))"
proof -
  let ?A = "attached_seqs s i" and ?ub = "upper_bound (windows s ! i)"
  have u: "upper_bound (windows (window_update_bounds s) ! i) = fold upper_step ?A ?ub"
    using nth_window_update_bounds [OF assms(1)] by simp
  show "sint ?ub < 0 \<and> ?A \<noteq> [] \<longrightarrow>
           upper_bound (windows (window_update_bounds s) ! i) \<in> set ?A \<and>
           (\<forall>v\<in>set ?A. seq_off b (uint v) \<le> seq_off b (uint (upper_bound (windows (window_update_bounds s) ! i))))"
  proof (intro impI, elim conjE)
    assume n: "sint ?ub < 0" and ne: "?A \<noteq> []"
    obtain v0 vs where A: "?A = v0 # vs" using ne by (cases ?A) auto
    have f: "fold upper_step ?A ?ub = fold upper_step vs v0"
      unfolding A using n by (rule fold_upper_step_neg)
    have "fold upper_step vs v0 \<in> set (v0 # vs)" by (rule upper_step_mem)
    moreover have "\<forall>v\<in>set (v0 # vs). seq_off b (uint v) \<le> seq_off b (uint (fold upper_step vs v0))"
      using assms(4) unfolding A by (rule upper_step_max [OF assms(2,3)])
    ultimately show "upper_bound (windows (window_update_bounds s) ! i) \<in> set ?A \<and>
           (\<forall>v\<in>set ?A. seq_off b (uint v) \<le> seq_off b (uint (upper_bound (windows (window_update_bounds s) ! i))))"
      unfolding u f unfolding A by simp
  qed
  show "0 \<le> sint ?ub \<and> seq_off b (sint ?ub) < 0x4000 \<longrightarrow>
           upper_bound (windows (window_update_bounds s) ! i) \<in> set (?ub # ?A) \<and>
           (\<forall>v\<in>set (?ub # ?A). seq_off b (uint v) \<le> seq_off b (uint (upper_bound (windows (window_update_bounds s) ! i))))"
  proof (intro impI, elim conjE)
    assume p: "0 \<le> sint ?ub" and o: "seq_off b (sint ?ub) < 0x4000"
    have ub: "?ub \<le> 0x7FFF" using p by (rule sint_nonneg_seq15)
    have w: "within_half_window b (?ub # ?A)"
      using assms(4) ub o seq15_ints [OF ub] by (simp add: within_half_window_def)
    have "fold upper_step ?A ?ub \<in> set (?ub # ?A)" by (rule upper_step_mem)
    moreover have "\<forall>v\<in>set (?ub # ?A). seq_off b (uint v) \<le> seq_off b (uint (fold upper_step ?A ?ub))"
      using w by (rule upper_step_max [OF assms(2,3)])
    ultimately show "upper_bound (windows (window_update_bounds s) ! i) \<in> set (?ub # ?A) \<and>
           (\<forall>v\<in>set (?ub # ?A). seq_off b (uint v) \<le> seq_off b (uint (upper_bound (windows (window_update_bounds s) ! i))))"
      unfolding u by simp
  qed
qed






section \<open>Flag bits\<close>

lemma and_0x80_iff: "(x :: 8 word) AND 0x80 = 0 \<longleftrightarrow> \<not> bit x 7"
  using and_exp_eq_0_iff_not_bit [of x 7] by simp

lemma packet_used_simps [simp]:
  "MCAST_PACKET_IS_USED (MCAST_PACKET_SEND_SET p) = MCAST_PACKET_IS_USED p"
  "MCAST_PACKET_IS_USED (MCAST_PACKET_SEND_CLR p) = MCAST_PACKET_IS_USED p"
  "MCAST_PACKET_IS_USED (MCAST_PACKET_LISTED_SET p) = MCAST_PACKET_IS_USED p"
  "MCAST_PACKET_IS_USED (MCAST_PACKET_LISTED_CLR p) = MCAST_PACKET_IS_USED p"
  "MCAST_PACKET_IS_USED (MCAST_PACKET_USED_SET p)"
  "\<not> MCAST_PACKET_IS_USED (MCAST_PACKET_FREE p)"
  by (simp_all add: MCAST_PACKET_IS_USED_def MCAST_PACKET_SEND_SET_def MCAST_PACKET_SEND_CLR_def
        MCAST_PACKET_LISTED_SET_def MCAST_PACKET_LISTED_CLR_def MCAST_PACKET_USED_SET_def
        MCAST_PACKET_FREE_def MCAST_PACKET_U_BIT_def MCAST_PACKET_S_BIT_def MCAST_PACKET_L_BIT_def
        and_0x80_iff bit_simps)

lemma packet_fields_simps [simp]:
  "sw (MCAST_PACKET_SEND_SET p) = sw p" "seq_val (MCAST_PACKET_SEND_SET p) = seq_val p"
  "sw (MCAST_PACKET_SEND_CLR p) = sw p" "seq_val (MCAST_PACKET_SEND_CLR p) = seq_val p"
  "sw (MCAST_PACKET_LISTED_SET p) = sw p" "seq_val (MCAST_PACKET_LISTED_SET p) = seq_val p"
  "sw (MCAST_PACKET_LISTED_CLR p) = sw p" "seq_val (MCAST_PACKET_LISTED_CLR p) = seq_val p"
  "sw (MCAST_PACKET_USED_SET p) = sw p" "seq_val (MCAST_PACKET_USED_SET p) = seq_val p"
  by (simp_all add: MCAST_PACKET_SEND_SET_def MCAST_PACKET_SEND_CLR_def
        MCAST_PACKET_LISTED_SET_def MCAST_PACKET_LISTED_CLR_def MCAST_PACKET_USED_SET_def)

lemma window_used_simps [simp]:
  "SLIDING_WINDOW_IS_USED (SLIDING_WINDOW_LISTED_SET w) = SLIDING_WINDOW_IS_USED w"
  "SLIDING_WINDOW_IS_USED (SLIDING_WINDOW_LISTED_CLR w) = SLIDING_WINDOW_IS_USED w"
  "SLIDING_WINDOW_IS_USED (SLIDING_WINDOW_M_SET w) = SLIDING_WINDOW_IS_USED w"
  "SLIDING_WINDOW_IS_USED (SLIDING_WINDOW_M_CLR w) = SLIDING_WINDOW_IS_USED w"
  "SLIDING_WINDOW_IS_USED (SLIDING_WINDOW_IS_USED_SET w)"
  "\<not> SLIDING_WINDOW_IS_USED (window_free w)"
  by (simp_all add: SLIDING_WINDOW_IS_USED_def SLIDING_WINDOW_LISTED_SET_def
        SLIDING_WINDOW_LISTED_CLR_def SLIDING_WINDOW_M_SET_def SLIDING_WINDOW_M_CLR_def
        SLIDING_WINDOW_IS_USED_SET_def window_free_def SLIDING_WINDOW_U_BIT_def
        SLIDING_WINDOW_M_BIT_def SLIDING_WINDOW_L_BIT_def and_0x80_iff bit_simps)

lemma window_fields_simps [simp]:
  "count (SLIDING_WINDOW_LISTED_SET w) = count w"
  "lower_bound (SLIDING_WINDOW_LISTED_SET w) = lower_bound w"
  "upper_bound (SLIDING_WINDOW_LISTED_SET w) = upper_bound w"
  "count (SLIDING_WINDOW_LISTED_CLR w) = count w"
  "lower_bound (SLIDING_WINDOW_LISTED_CLR w) = lower_bound w"
  "upper_bound (SLIDING_WINDOW_LISTED_CLR w) = upper_bound w"
  "count (SLIDING_WINDOW_M_SET w) = count w"
  "lower_bound (SLIDING_WINDOW_M_SET w) = lower_bound w"
  "upper_bound (SLIDING_WINDOW_M_SET w) = upper_bound w"
  "count (SLIDING_WINDOW_M_CLR w) = count w"
  "lower_bound (SLIDING_WINDOW_M_CLR w) = lower_bound w"
  "upper_bound (SLIDING_WINDOW_M_CLR w) = upper_bound w"
  "count (SLIDING_WINDOW_IS_USED_SET w) = count w"
  "lower_bound (SLIDING_WINDOW_IS_USED_SET w) = lower_bound w"
  "upper_bound (SLIDING_WINDOW_IS_USED_SET w) = upper_bound w"
  "count (window_free w) = count w"
  "lower_bound (window_free w) = lower_bound w"
  "upper_bound (window_free w) = upper_bound w"
  by (simp_all add: SLIDING_WINDOW_LISTED_SET_def SLIDING_WINDOW_LISTED_CLR_def
        SLIDING_WINDOW_M_SET_def SLIDING_WINDOW_M_CLR_def SLIDING_WINDOW_IS_USED_SET_def
        window_free_def)

section \<open>States with the same tables\<close>

lemma same_tables_refl [simp]: "same_tables s s"
  by (simp add: same_tables_def)

lemma same_tables_trans: "same_tables s s1 \<Longrightarrow> same_tables s1 s2 \<Longrightarrow> same_tables s s2"
  by (simp add: same_tables_def)

lemma same_tables_lengths:
  assumes "same_tables s s'"
  shows "length (buffered_msgs s') = length (buffered_msgs s)"
    and "length (windows s') = length (windows s)"
  using assms unfolding same_tables_def by (metis length_map)+

lemma same_tables_packet:
  assumes "same_tables s s'" "j < length (buffered_msgs s)"
  shows "MCAST_PACKET_IS_USED (buffered_msgs s' ! j) = MCAST_PACKET_IS_USED (buffered_msgs s ! j)"
    and "sw (buffered_msgs s' ! j) = sw (buffered_msgs s ! j)"
    and "seq_val (buffered_msgs s' ! j) = seq_val (buffered_msgs s ! j)"
proof -
  have l: "j < length (buffered_msgs s')" using assms same_tables_lengths(1) by simp
  have "map packet_view (buffered_msgs s') ! j = map packet_view (buffered_msgs s) ! j"
    using assms(1) by (simp add: same_tables_def)
  then have v: "packet_view (buffered_msgs s' ! j) = packet_view (buffered_msgs s ! j)"
    using l assms(2) by simp
  from v show "MCAST_PACKET_IS_USED (buffered_msgs s' ! j) = MCAST_PACKET_IS_USED (buffered_msgs s ! j)"
    and "sw (buffered_msgs s' ! j) = sw (buffered_msgs s ! j)"
    and "seq_val (buffered_msgs s' ! j) = seq_val (buffered_msgs s ! j)"
    by (simp_all add: packet_view_def)
qed

lemma same_tables_window:
  assumes "same_tables s s'" "i < length (windows s)"
  shows "SLIDING_WINDOW_IS_USED (windows s' ! i) = SLIDING_WINDOW_IS_USED (windows s ! i)"
    and "count (windows s' ! i) = count (windows s ! i)"
    and "lower_bound (windows s' ! i) = lower_bound (windows s ! i)"
    and "upper_bound (windows s' ! i) = upper_bound (windows s ! i)"
proof -
  have l: "i < length (windows s')" using assms same_tables_lengths(2) by simp
  have "map window_view (windows s') ! i = map window_view (windows s) ! i"
    using assms(1) by (simp add: same_tables_def)
  then have v: "window_view (windows s' ! i) = window_view (windows s ! i)"
    using l assms(2) by simp
  from v show "SLIDING_WINDOW_IS_USED (windows s' ! i) = SLIDING_WINDOW_IS_USED (windows s ! i)"
    and "count (windows s' ! i) = count (windows s ! i)"
    and "lower_bound (windows s' ! i) = lower_bound (windows s ! i)"
    and "upper_bound (windows s' ! i) = upper_bound (windows s ! i)"
    by (simp_all add: window_view_def)
qed

lemma same_tables_attached:
  assumes "same_tables s s'"
  shows "attached s' i = attached s i"
  unfolding attached_def same_tables_lengths(1) [OF assms]
  by (rule filter_cong) (simp_all add: same_tables_packet [OF assms])

lemma same_tables_table_inv_weak:
  assumes "same_tables s s'" "table_inv_weak s"
  shows "table_inv_weak s'"
  using assms(2) unfolding table_inv_weak_def
  by (simp add: same_tables_lengths [OF assms(1)] same_tables_attached [OF assms(1)]
        same_tables_packet [OF assms(1)] same_tables_window [OF assms(1)])

lemma same_tables_lower_attained:
  assumes "same_tables s s'" "lower_attained s"
  shows "lower_attained s'"
proof -
  have m: "j \<in> set (attached s i) \<Longrightarrow> j < length (buffered_msgs s)" for i j
    by (simp add: set_attached)
  show ?thesis
    using assms(2) unfolding lower_attained_def
    by (simp add: same_tables_lengths [OF assms(1)] same_tables_attached [OF assms(1)]
          same_tables_packet [OF assms(1) m] same_tables_window [OF assms(1)])
qed

lemma same_tables_bounds_inv:
  assumes "same_tables s s'" "bounds_inv s"
  shows "bounds_inv s'"
proof -
  have m: "j \<in> set (attached s i) \<Longrightarrow> j < length (buffered_msgs s)" for i j
    by (simp add: set_attached)
  show ?thesis
    using assms(2) unfolding bounds_inv_def
    by (simp add: same_tables_lengths [OF assms(1)] same_tables_attached [OF assms(1)]
          same_tables_packet [OF assms(1) m] same_tables_window [OF assms(1)])
qed

lemma same_tables_table_inv: "same_tables s s' \<Longrightarrow> table_inv s \<Longrightarrow> table_inv s'"
  by (simp add: table_inv_def same_tables_table_inv_weak same_tables_lower_attained)


lemma same_tables_engine_inv_weak:
  "same_tables s s' \<Longrightarrow> engine_inv_weak s \<Longrightarrow> engine_inv_weak s'"
  by (simp add: engine_inv_weak_def same_tables_table_inv_weak same_tables_bounds_inv)


section \<open>Attached packets under an update of one slot\<close>

lemma attached_cong: "buffered_msgs s' = buffered_msgs s \<Longrightarrow> attached s' i = attached s i"
  by (simp add: attached_def)

lemma attached_less: "j \<in> set (attached s i) \<Longrightarrow> j < length (buffered_msgs s)"
  by (simp add: set_attached)

lemma set_attached_update:
  assumes "buffered_msgs s' = (buffered_msgs s)[j := p']" "j < length (buffered_msgs s)"
  shows "set (attached s' i) =
           (set (attached s i) - {j}) \<union> (if MCAST_PACKET_IS_USED p' \<and> sw p' = i then {j} else {})"
  unfolding set_attached assms(1) using assms(2)
  by (auto simp: nth_list_update)

lemma attached_free:
  assumes "buffered_msgs s' = (buffered_msgs s)[j := p']" "j < length (buffered_msgs s)"
    and "\<not> MCAST_PACKET_IS_USED p'"
  shows "set (attached s' i) = set (attached s i) - {j}"
    and "length (attached s' i) = length (attached s i) - (if j \<in> set (attached s i) then 1 else 0)"
proof -
  show 1: "set (attached s' i) = set (attached s i) - {j}"
    using set_attached_update [OF assms(1,2), of i] assms(3) by simp
  show "length (attached s' i) = length (attached s i) - (if j \<in> set (attached s i) then 1 else 0)"
    unfolding length_attached 1 by (simp add: card_Diff_singleton_if)
qed

lemma attached_store:
  assumes "buffered_msgs s' = (buffered_msgs s)[j := p']" "j < length (buffered_msgs s)"
    and "\<not> MCAST_PACKET_IS_USED (buffered_msgs s ! j)" "MCAST_PACKET_IS_USED p'"
  shows "set (attached s' i) = set (attached s i) \<union> (if sw p' = i then {j} else {})"
    and "length (attached s' i) = length (attached s i) + (if sw p' = i then 1 else 0)"
proof -
  have n: "j \<notin> set (attached s i)" using assms(3) by (simp add: set_attached)
  show 1: "set (attached s' i) = set (attached s i) \<union> (if sw p' = i then {j} else {})"
    using set_attached_update [OF assms(1,2), of i] assms(4) n by auto
  show "length (attached s' i) = length (attached s i) + (if sw p' = i then 1 else 0)"
    unfolding length_attached 1 using n by simp
qed

lemma length_attached_le: "length (attached s i) \<le> length (buffered_msgs s)"
  unfolding attached_def using length_filter_le [of _ "[0..<length (buffered_msgs s)]"] by simp

lemma length_attached_less:
  assumes "j < length (buffered_msgs s)" "\<not> MCAST_PACKET_IS_USED (buffered_msgs s ! j)"
  shows "length (attached s i) < length (buffered_msgs s)"
proof -
  have "set (attached s i) \<subseteq> {..<length (buffered_msgs s)} - {j}"
    using assms(2) by (auto simp: set_attached)
  then have "card (set (attached s i)) \<le> card ({..<length (buffered_msgs s)} - {j})"
    by (intro card_mono) simp_all
  also have "\<dots> < length (buffered_msgs s)" using assms(1) by simp
  finally show ?thesis by (simp add: length_attached)
qed

section \<open>Freeing a packet\<close>

lemma table_inv_weakD:
  assumes "table_inv_weak s"
  shows "length (buffered_msgs s) \<le> 255"
    and "j < length (buffered_msgs s) \<Longrightarrow> MCAST_PACKET_IS_USED (buffered_msgs s ! j) \<Longrightarrow>
           sw (buffered_msgs s ! j) < length (windows s)"
    and "j < length (buffered_msgs s) \<Longrightarrow> MCAST_PACKET_IS_USED (buffered_msgs s ! j) \<Longrightarrow>
           seq_val (buffered_msgs s ! j) \<le> 0x7FFF"
    and "i < length (windows s) \<Longrightarrow> unat (count (windows s ! i)) = length (attached s i)"
    and "i < length (windows s) \<Longrightarrow> \<not> SLIDING_WINDOW_IS_USED (windows s ! i) \<Longrightarrow>
           count (windows s ! i) = 0"
  using assms unfolding table_inv_weak_def by blast+

lemma free_packet_table_inv_weak:
  assumes inv: "table_inv_weak s"
    and ps: "buffered_msgs s' = (buffered_msgs s)[j := p']"
    and ws: "windows s' = (windows s)[i0 := w']"
    and j: "j < length (buffered_msgs s)" "MCAST_PACKET_IS_USED (buffered_msgs s ! j)"
      "sw (buffered_msgs s ! j) = i0"
    and p': "\<not> MCAST_PACKET_IS_USED p'"
    and w': "count w' = count (windows s ! i0) - 1" "\<not> SLIDING_WINDOW_IS_USED w' \<longrightarrow> count w' = 0"
  shows "table_inv_weak s'"
proof -
  note d = table_inv_weakD [OF inv]
  have i0: "i0 < length (windows s)" using d(2) [OF j(1,2)] j(3) by simp
  have jin: "j \<in> set (attached s i0)" using j by (simp add: set_attached)
  then have pos: "0 < length (attached s i0)" by (cases "attached s i0") simp_all
  have c0: "unat (count (windows s ! i0)) = length (attached s i0)"
    by (rule d(4) [OF i0])
  then have nz: "count (windows s ! i0) \<noteq> 0" using pos by (auto simp: unat_eq_zero)
  have cw: "unat (count w') = length (attached s i0) - 1"
    using w'(1) c0 unat_minus_one [OF nz] by simp
  note len = attached_free(2) [OF ps j(1) p']
  have other: "i \<noteq> i0 \<Longrightarrow> j \<notin> set (attached s i)" for i using j by (simp add: set_attached)
  show ?thesis
    unfolding table_inv_weak_def
  proof (intro conjI allI impI)
    show "length (buffered_msgs s') \<le> 255" using d(1) ps by simp
  next
    fix j' assume a: "j' < length (buffered_msgs s')" "MCAST_PACKET_IS_USED (buffered_msgs s' ! j')"
    then have "j' \<noteq> j" using ps p' j(1) by auto
    with a ps have b: "j' < length (buffered_msgs s)" "buffered_msgs s' ! j' = buffered_msgs s ! j'"
      by simp_all
    with a have u: "MCAST_PACKET_IS_USED (buffered_msgs s ! j')" by simp
    show "sw (buffered_msgs s' ! j') < length (windows s')"
      using d(2) [OF b(1) u] b(2) ws by simp
    show "seq_val (buffered_msgs s' ! j') \<le> 0x7FFF"
      using d(3) [OF b(1) u] b(2) by simp
  next
    fix i assume i: "i < length (windows s')"
    show "unat (count (windows s' ! i)) = length (attached s' i)"
    proof (cases "i = i0")
      case True
      then show ?thesis using ws i0 cw len [of i0] jin by simp
    next
      case False
      then show ?thesis using ws i d(4) [of i] len [of i] other [of i] by simp
    qed
  next
    fix i assume i: "i < length (windows s')" and u: "\<not> SLIDING_WINDOW_IS_USED (windows s' ! i)"
    show "count (windows s' ! i) = 0"
    proof (cases "i = i0")
      case True
      then show ?thesis using ws i0 w'(2) u by simp
    next
      case False
      then show ?thesis using ws i d(5) [of i] u by simp
    qed
  qed
qed

lemma free_packet_bounds_inv:
  assumes inv: "bounds_inv s"
    and ps: "buffered_msgs s' = (buffered_msgs s)[j := p']"
    and ws: "windows s' = (windows s)[i0 := w']"
    and j: "j < length (buffered_msgs s)"
    and p': "\<not> MCAST_PACKET_IS_USED p'"
    and w': "lower_bound w' = lower_bound (windows s ! i0)"
      "upper_bound w' = upper_bound (windows s ! i0)"
  shows "bounds_inv s'"
  unfolding bounds_inv_def
proof (intro allI impI)
  fix i assume i: "i < length (windows s')" and ne: "attached s' i \<noteq> []"
  have sub: "set (attached s' i) = set (attached s i) - {j}" by (rule attached_free(1) [OF ps j p'])
  have ne0: "attached s i \<noteq> []" using ne sub by (cases "attached s i") auto
  have il: "i < length (windows s)" using i ws by simp
  have lb: "lower_bound (windows s' ! i) = lower_bound (windows s ! i)"
    and ub: "upper_bound (windows s' ! i) = upper_bound (windows s ! i)"
    using ws w' il by (cases "i = i0"; simp)+
  have old: "0 \<le> sint (lower_bound (windows s ! i)) \<and>
          0 \<le> sint (upper_bound (windows s ! i)) \<and>
          seq_off (sint (lower_bound (windows s ! i))) (sint (upper_bound (windows s ! i))) < 0x4000 \<and>
          (\<forall>j\<in>set (attached s i).
             seq_off (sint (lower_bound (windows s ! i))) (uint (seq_val (buffered_msgs s ! j)))
               \<le> seq_off (sint (lower_bound (windows s ! i))) (sint (upper_bound (windows s ! i))))"
    using inv il ne0 unfolding bounds_inv_def by blast
  have same: "j' \<in> set (attached s' i) \<Longrightarrow> buffered_msgs s' ! j' = buffered_msgs s ! j'" for j'
    unfolding sub ps by simp
  show "0 \<le> sint (lower_bound (windows s' ! i)) \<and>
          0 \<le> sint (upper_bound (windows s' ! i)) \<and>
          seq_off (sint (lower_bound (windows s' ! i))) (sint (upper_bound (windows s' ! i))) < 0x4000 \<and>
          (\<forall>j\<in>set (attached s' i).
             seq_off (sint (lower_bound (windows s' ! i))) (uint (seq_val (buffered_msgs s' ! j)))
               \<le> seq_off (sint (lower_bound (windows s' ! i))) (sint (upper_bound (windows s' ! i))))"
    unfolding lb ub using old same sub by auto
qed

section \<open>The update of the bounds restores the invariants\<close>

lemma attached_used:
  assumes "j \<in> set (attached s i)"
  shows "j < length (buffered_msgs s)" "MCAST_PACKET_IS_USED (buffered_msgs s ! j)"
    "sw (buffered_msgs s ! j) = i"
  using assms by (simp_all add: set_attached)

lemma sint_minus1_16: "sint (- 1 :: 16 word) < 0"
  by simp

lemma window_update_bounds_table_inv:
  assumes inv: "table_inv_weak s"
  shows "table_inv (window_update_bounds s)"
proof -
  note d = table_inv_weakD [OF inv]
  let ?s = "window_update_bounds s"
  have w: "i < length (windows s) \<Longrightarrow>
             count (windows ?s ! i) = count (windows s ! i) \<and>
             SLIDING_WINDOW_IS_USED (windows ?s ! i) = SLIDING_WINDOW_IS_USED (windows s ! i)" for i
    by (simp add: nth_window_update_bounds SLIDING_WINDOW_IS_USED_def)
  have weak: "table_inv_weak ?s"
    unfolding table_inv_weak_def using d w by simp
  have att: "lower_attained ?s"
    unfolding lower_attained_def
  proof (intro allI impI)
    fix i assume i: "i < length (windows ?s)" and ne: "attached ?s i \<noteq> []"
    then have il: "i < length (windows s)" and ne0: "attached_seqs s i \<noteq> []"
      by (simp_all add: attached_seqs_Nil_iff)
    have l: "lower_bound (windows ?s ! i) = fold lower_step (attached_seqs s i) (- 1)"
      using nth_window_update_bounds [OF il] by simp
    have "fold lower_step (attached_seqs s i) (- 1) \<in> set (attached_seqs s i)"
      using sint_minus1_16 ne0 by (rule lower_step_mem_neg)
    then obtain j where j: "j \<in> set (attached s i)"
      and v: "seq_val (buffered_msgs s ! j) = lower_bound (windows ?s ! i)"
      unfolding l set_attached_seqs by auto
    have "seq_val (buffered_msgs s ! j) \<le> 0x7FFF"
      using d(3) attached_used [OF j] by simp
    then have e: "uint (seq_val (buffered_msgs s ! j)) = sint (seq_val (buffered_msgs s ! j))"
      using seq15_ints by simp
    show "\<exists>j\<in>set (attached ?s i).
        uint (seq_val (buffered_msgs ?s ! j)) = sint (lower_bound (windows ?s ! i))"
    proof (intro bexI [of _ j])
      show "uint (seq_val (buffered_msgs ?s ! j)) = sint (lower_bound (windows ?s ! i))"
        using e v by simp
      show "j \<in> set (attached ?s i)" using j by simp
    qed
  qed
  from weak att show ?thesis by (simp add: table_inv_def)
qed

lemma window_update_bounds_bounds_inv:
  assumes inv: "table_inv_weak s" and b: "bounds_inv s"
  shows "bounds_inv (window_update_bounds s)"
  unfolding bounds_inv_def
proof (intro allI impI)
  let ?s = "window_update_bounds s"
  note d = table_inv_weakD [OF inv]
  fix i assume i: "i < length (windows ?s)" and ne: "attached ?s i \<noteq> []"
  then have il: "i < length (windows s)" and ne0: "attached s i \<noteq> []" by simp_all
  then have neA: "attached_seqs s i \<noteq> []" by (simp add: attached_seqs_Nil_iff)
  let ?lb = "lower_bound (windows s ! i)" and ?ub = "upper_bound (windows s ! i)"
  let ?l = "lower_bound (windows ?s ! i)" and ?u = "upper_bound (windows ?s ! i)"
  let ?b = "sint ?lb"
  from b il ne0 have old: "0 \<le> ?b" "0 \<le> sint ?ub" "seq_off ?b (sint ?ub) < 0x4000"
    and oldv: "\<forall>j\<in>set (attached s i). seq_off ?b (uint (seq_val (buffered_msgs s ! j))) \<le> seq_off ?b (sint ?ub)"
    unfolding bounds_inv_def by blast+
  have b2: "?b \<le> 0x7FFF" using sint_lt [of ?lb] by simp
  have ub15: "?ub \<le> 0x7FFF" using old(2) by (rule sint_nonneg_seq15)
  note iub = seq15_ints [OF ub15]
  have vals: "v \<in> set (attached_seqs s i) \<Longrightarrow>
                v \<le> 0x7FFF \<and> seq_off ?b (uint v) \<le> seq_off ?b (sint ?ub)" for v
    unfolding set_attached_seqs using d(3) attached_used oldv by auto
  have whw: "within_half_window ?b (attached_seqs s i)"
    unfolding within_half_window_def using vals old(3) by fastforce
  note lo = window_update_bounds_lower [OF il neA old(1) b2 whw]
  have ou: "seq_off ?b (sint ?ub) < 0x4000" by (rule old(3))
  note up = window_update_bounds_upper(2) [OF il old(1) b2 whw]
  from up old(2) ou have um: "?u \<in> set (?ub # attached_seqs s i)"
    and umax: "\<forall>v\<in>set (?ub # attached_seqs s i). seq_off ?b (uint v) \<le> seq_off ?b (uint ?u)"
    by simp_all
  from lo have lm: "?l \<in> set (attached_seqs s i)"
    and lmin: "\<forall>v\<in>set (attached_seqs s i). seq_off ?b (uint ?l) \<le> seq_off ?b (uint v)"
    by simp_all
  have l15: "?l \<le> 0x7FFF" using vals lm by simp
  have u15: "?u \<le> 0x7FFF" using um vals ub15 by auto
  note il15 = seq15_ints [OF l15] and iu15 = seq15_ints [OF u15]
  have lu: "seq_off ?b (uint ?l) \<le> seq_off ?b (uint ?u)" using umax lm by simp
  have u_le: "seq_off ?b (uint ?u) \<le> seq_off ?b (sint ?ub)"
    using um vals iub by auto
  have r_u: "seq_off (uint ?l) (uint ?u) = seq_off ?b (uint ?u) - seq_off ?b (uint ?l)"
    using lu by (rule seq_off_rebase)
  have r_v: "v \<in> set (attached_seqs s i) \<Longrightarrow>
               seq_off (uint ?l) (uint v) = seq_off ?b (uint v) - seq_off ?b (uint ?l)" for v
    using lmin by (intro seq_off_rebase) simp
  have nn: "0 \<le> seq_off ?b (uint ?l)" using seq_off_range by simp
  have c3: "seq_off (sint ?l) (sint ?u) < 0x4000"
    using r_u u_le ou nn il15 iu15 by simp
  have c4: "\<forall>j\<in>set (attached ?s i).
              seq_off (sint ?l) (uint (seq_val (buffered_msgs ?s ! j))) \<le> seq_off (sint ?l) (sint ?u)"
  proof
    fix j assume "j \<in> set (attached ?s i)"
    then have "seq_val (buffered_msgs s ! j) \<in> set (attached_seqs s i)"
      unfolding set_attached_seqs by simp
    then show "seq_off (sint ?l) (uint (seq_val (buffered_msgs ?s ! j))) \<le> seq_off (sint ?l) (sint ?u)"
      using r_v r_u umax il15 iu15 by simp
  qed
  show "0 \<le> sint ?l \<and> 0 \<le> sint ?u \<and> seq_off (sint ?l) (sint ?u) < 0x4000 \<and>
        (\<forall>j\<in>set (attached ?s i).
           seq_off (sint ?l) (uint (seq_val (buffered_msgs ?s ! j))) \<le> seq_off (sint ?l) (sint ?u))"
    using il15 iu15 c3 c4 by simp
qed

lemma window_update_bounds_engine_inv:
  "engine_inv_weak s \<Longrightarrow> engine_inv (window_update_bounds s)"
  by (simp add: engine_inv_weak_def engine_inv_def window_update_bounds_table_inv
        window_update_bounds_bounds_inv)

lemma table_inv_weakI: "table_inv s \<Longrightarrow> table_inv_weak s"
  by (simp add: table_inv_def)

lemma engine_inv_weakI: "engine_inv s \<Longrightarrow> engine_inv_weak s"
  by (simp add: engine_inv_def engine_inv_weak_def table_inv_def)

section \<open>Storing a packet\<close>

lemma mask7: "(0x7F :: 8 word) = mask 7"
  by (simp add: mask_eq_exp_minus_1)

lemma hbho_seq_val_15: "hbho_seq_val dg \<le> 0x7FFF"
proof -
  have "take_bit 15 (hbho_seq_val dg) = hbho_seq_val dg"
    unfolding hbho_seq_val_def HBH_GET_SV_MSB_def mask7
    by (rule bit_word_eqI) (auto simp: bit_simps dest: bit_imp_le_length)
  moreover have "hbho_seq_val dg AND mask 15 < 2 ^ 15"
    by (rule and_mask_less_size) (simp add: word_size)
  ultimately have "hbho_seq_val dg < 2 ^ 15"
    by (simp add: take_bit_eq_mask)
  then show ?thesis by (simp add: word_less_nat_alt word_le_nat_alt)
qed


lemma window_used_upd [simp]:
  "SLIDING_WINDOW_IS_USED (w\<lparr>seed_id := a\<rparr>) = SLIDING_WINDOW_IS_USED w"
  "SLIDING_WINDOW_IS_USED (w\<lparr>lower_bound := b\<rparr>) = SLIDING_WINDOW_IS_USED w"
  "SLIDING_WINDOW_IS_USED (w\<lparr>upper_bound := b\<rparr>) = SLIDING_WINDOW_IS_USED w"
  "SLIDING_WINDOW_IS_USED (w\<lparr>count := n\<rparr>) = SLIDING_WINDOW_IS_USED w"
  "SLIDING_WINDOW_IS_USED (w\<lparr>min_listed := b\<rparr>) = SLIDING_WINDOW_IS_USED w"
  by (simp_all add: SLIDING_WINDOW_IS_USED_def)

lemma packet_used_upd [simp]:
  "MCAST_PACKET_IS_USED (p\<lparr>buff := d\<rparr>) = MCAST_PACKET_IS_USED p"
  "MCAST_PACKET_IS_USED (p\<lparr>active := a\<rparr>) = MCAST_PACKET_IS_USED p"
  "MCAST_PACKET_IS_USED (p\<lparr>dwell := a\<rparr>) = MCAST_PACKET_IS_USED p"
  by (simp_all add: MCAST_PACKET_IS_USED_def)

lemma accept_window_fields:
  "count (accept_window sd m sv w) = count w + 1"
  "SLIDING_WINDOW_IS_USED (accept_window sd m sv w)"
  "lower_bound (accept_window sd m sv w) = (if count w = 0 then sv else lower_bound w)"
  "upper_bound (accept_window sd m sv w) =
     (if count w = 0 \<or> SEQ_VAL_IS_GT (uint sv) (sint (upper_bound w)) then sv else upper_bound w)"
  by (simp_all add: accept_window_def Let_def)

lemma accept_packet_fields:
  "MCAST_PACKET_IS_USED (accept_packet cfg inp dg len i sv)"
  "sw (accept_packet cfg inp dg len i sv) = i"
  "seq_val (accept_packet cfg inp dg len i sv) = sv"
  by (simp_all add: accept_packet_def Let_def)

lemma count_zero_attached:
  assumes "table_inv_weak s" "i < length (windows s)"
  shows "count (windows s ! i) = 0 \<longleftrightarrow> attached s i = []"
  using table_inv_weakD(4) [OF assms] by (simp flip: unat_eq_zero)

lemma store_packet_table_inv:
  assumes inv: "table_inv s"
    and ps: "buffered_msgs s' = (buffered_msgs s)[j := p']"
    and ws: "windows s' = (windows s)[i0 := w']"
    and j: "j < length (buffered_msgs s)" "\<not> MCAST_PACKET_IS_USED (buffered_msgs s ! j)"
    and p': "MCAST_PACKET_IS_USED p'" "sw p' = i0" "seq_val p' \<le> 0x7FFF"
    and i0: "i0 < length (windows s)"
    and w': "count w' = count (windows s ! i0) + 1" "SLIDING_WINDOW_IS_USED w'"
      "lower_bound w' = (if count (windows s ! i0) = 0 then seq_val p' else lower_bound (windows s ! i0))"
  shows "table_inv s'"
proof -
  have weak: "table_inv_weak s" and la: "lower_attained s" using inv by (simp_all add: table_inv_def)
  note d = table_inv_weakD [OF weak]
  note st = attached_store [OF ps j p'(1)]
  have c0: "unat (count (windows s ! i0)) = length (attached s i0)" by (rule d(4) [OF i0])
  have "length (attached s i0) < length (buffered_msgs s)" by (rule length_attached_less [OF j])
  then have lt: "unat (count (windows s ! i0)) + unat (1 :: 8 word) < 2 ^ LENGTH(8)"
    using c0 d(1) by simp
  have cw: "unat (count w') = length (attached s i0) + 1"
    using w'(1) c0 unat_add_lem [THEN iffD1, OF lt] by simp
  have weak': "table_inv_weak s'"
    unfolding table_inv_weak_def
  proof (intro conjI allI impI)
    show "length (buffered_msgs s') \<le> 255" using d(1) ps by simp
  next
    fix j' assume a: "j' < length (buffered_msgs s')" "MCAST_PACKET_IS_USED (buffered_msgs s' ! j')"
    show "sw (buffered_msgs s' ! j') < length (windows s')"
      using a d(2) [of j'] ps ws p' i0 by (cases "j' = j") simp_all
    show "seq_val (buffered_msgs s' ! j') \<le> 0x7FFF"
      using a d(3) [of j'] ps p' by (cases "j' = j") simp_all
  next
    fix i assume i: "i < length (windows s')"
    show "unat (count (windows s' ! i)) = length (attached s' i)"
      using i ws cw st(2) [of i] p'(2) d(4) [of i] by (cases "i = i0") simp_all
  next
    fix i assume i: "i < length (windows s')" and u: "\<not> SLIDING_WINDOW_IS_USED (windows s' ! i)"
    show "count (windows s' ! i) = 0"
      using i u ws w'(2) d(5) [of i] by (cases "i = i0") simp_all
  qed
  have la': "lower_attained s'"
    unfolding lower_attained_def
  proof (intro allI impI)
    fix i assume i: "i < length (windows s')" and ne: "attached s' i \<noteq> []"
    have il: "i < length (windows s)" using i ws by simp
    have keep: "j0 \<in> set (attached s i) \<Longrightarrow>
                  j0 \<in> set (attached s' i) \<and> buffered_msgs s' ! j0 = buffered_msgs s ! j0" for j0
      using st(1) [of i] attached_used(2) [of j0 s i] j(2) ps by (cases "j0 = j") auto
    show "\<exists>j\<in>set (attached s' i).
            uint (seq_val (buffered_msgs s' ! j)) = sint (lower_bound (windows s' ! i))"
    proof (cases "i = i0 \<and> count (windows s ! i0) = 0")
      case True
      then have l: "lower_bound (windows s' ! i) = seq_val p'" using ws w'(3) i0 by simp
      have jin: "j \<in> set (attached s' i)" using st(1) [of i] True p'(2) by simp
      have "buffered_msgs s' ! j = p'" using ps j(1) by simp
      then have "uint (seq_val (buffered_msgs s' ! j)) = sint (lower_bound (windows s' ! i))"
        using l seq15_ints [OF p'(3)] by simp
      with jin show ?thesis by blast
    next
      case False
      then have lb: "lower_bound (windows s' ! i) = lower_bound (windows s ! i)"
        using ws w'(3) il by (cases "i = i0") simp_all
      have "attached s i \<noteq> []"
      proof (cases "i = i0")
        case True
        with False have "count (windows s ! i0) \<noteq> 0" by simp
        then show ?thesis using count_zero_attached [OF weak i0] True by simp
      next
        case f: False
        then have "set (attached s' i) = set (attached s i)" using st(1) [of i] p'(2) by simp
        with ne show ?thesis by (cases "attached s i") auto
      qed
      with la il obtain j0 where j0: "j0 \<in> set (attached s i)"
        and v: "uint (seq_val (buffered_msgs s ! j0)) = sint (lower_bound (windows s ! i))"
        unfolding lower_attained_def by blast
      have "uint (seq_val (buffered_msgs s' ! j0)) = sint (lower_bound (windows s' ! i))"
        using keep [OF j0] v lb by simp
      with keep [OF j0] show ?thesis by blast
    qed
  qed
  from weak' la' show ?thesis by (simp add: table_inv_def)
qed

lemma store_packet_bounds_inv:
  assumes inv: "table_inv s" and b: "bounds_inv s"
    and ps: "buffered_msgs s' = (buffered_msgs s)[j := p']"
    and ws: "windows s' = (windows s)[i0 := w']"
    and j: "j < length (buffered_msgs s)" "\<not> MCAST_PACKET_IS_USED (buffered_msgs s ! j)"
    and p': "MCAST_PACKET_IS_USED p'" "sw p' = i0" "seq_val p' \<le> 0x7FFF"
    and i0: "i0 < length (windows s)"
    and w': "lower_bound w' = (if count (windows s ! i0) = 0 then seq_val p' else lower_bound (windows s ! i0))"
      "upper_bound w' =
         (if count (windows s ! i0) = 0 \<or>
             SEQ_VAL_IS_GT (uint (seq_val p')) (sint (upper_bound (windows s ! i0)))
          then seq_val p' else upper_bound (windows s ! i0))"
    and pre: "count (windows s ! i0) \<noteq> 0 \<longrightarrow>
                seq_off (sint (lower_bound (windows s ! i0))) (uint (seq_val p')) < 0x4000"
  shows "bounds_inv s'"
  unfolding bounds_inv_def
proof (intro allI impI)
  have weak: "table_inv_weak s" using inv by (simp add: table_inv_def)
  note st = attached_store [OF ps j p'(1)]
  note isv = seq15_ints [OF p'(3)]
  fix i assume i: "i < length (windows s')" and ne: "attached s' i \<noteq> []"
  have il: "i < length (windows s)" using i ws by simp
  let ?goal = "0 \<le> sint (lower_bound (windows s' ! i)) \<and>
          0 \<le> sint (upper_bound (windows s' ! i)) \<and>
          seq_off (sint (lower_bound (windows s' ! i))) (sint (upper_bound (windows s' ! i))) < 0x4000 \<and>
          (\<forall>j\<in>set (attached s' i).
             seq_off (sint (lower_bound (windows s' ! i))) (uint (seq_val (buffered_msgs s' ! j)))
               \<le> seq_off (sint (lower_bound (windows s' ! i))) (sint (upper_bound (windows s' ! i))))"
  have old: "attached s i \<noteq> [] \<Longrightarrow>
          0 \<le> sint (lower_bound (windows s ! i)) \<and>
          0 \<le> sint (upper_bound (windows s ! i)) \<and>
          seq_off (sint (lower_bound (windows s ! i))) (sint (upper_bound (windows s ! i))) < 0x4000 \<and>
          (\<forall>j\<in>set (attached s i).
             seq_off (sint (lower_bound (windows s ! i))) (uint (seq_val (buffered_msgs s ! j)))
               \<le> seq_off (sint (lower_bound (windows s ! i))) (sint (upper_bound (windows s ! i))))"
    using b il unfolding bounds_inv_def by blast
  have same: "j0 \<in> set (attached s i) \<Longrightarrow> buffered_msgs s' ! j0 = buffered_msgs s ! j0" for j0
    using attached_used(2) [of j0 s i] j(2) ps by (cases "j0 = j") auto
  show ?goal
  proof (cases "i = i0")
    case False
    then have e: "set (attached s' i) = set (attached s i)" "windows s' ! i = windows s ! i"
      using st(1) [of i] p'(2) ws by simp_all
    then have "attached s i \<noteq> []" using ne by (cases "attached s i") auto
    from old [OF this] show ?thesis unfolding e using same by simp
  next
    case True
    have pj: "buffered_msgs s' ! j = p'" using ps j(1) by simp
    have att: "set (attached s' i) = insert j (set (attached s i))"
      using st(1) [of i] True p'(2) by simp
    have wi: "windows s' ! i = w'" using ws True i0 by simp
    show ?thesis
    proof (cases "count (windows s ! i0) = 0")
      case c0: True
      then have emp: "attached s i = []" using count_zero_attached [OF weak i0] True by simp
      have lw: "lower_bound w' = seq_val p'" "upper_bound w' = seq_val p'"
        using w' c0 by simp_all
      show ?thesis unfolding wi lw att emp using isv pj by simp
    next
      case c1: False
      then have ne0: "attached s i \<noteq> []" using count_zero_attached [OF weak i0] True by simp
      let ?lb = "lower_bound (windows s ! i)" and ?ub = "upper_bound (windows s ! i)"
      let ?b = "sint ?lb" and ?sv = "seq_val p'"
      from old [OF ne0] have o: "0 \<le> ?b" "0 \<le> sint ?ub" "seq_off ?b (sint ?ub) < 0x4000"
        and ov: "\<forall>j\<in>set (attached s i). seq_off ?b (uint (seq_val (buffered_msgs s ! j))) \<le> seq_off ?b (sint ?ub)"
        by blast+
      have b2: "?b \<le> 0x7FFF" using sint_lt [of ?lb] by simp
      have ub15: "?ub \<le> 0x7FFF" using o(2) by (rule sint_nonneg_seq15)
      note iub = seq15_ints [OF ub15]
      have osv: "seq_off ?b (uint ?sv) < 0x4000" using pre c1 True by simp
      have gt: "SEQ_VAL_IS_GT (uint ?sv) (sint ?ub) \<longleftrightarrow> seq_off ?b (uint ?sv) > seq_off ?b (sint ?ub)"
        using seq_cmp_off(2) [OF o(1) b2, of "uint ?sv" "sint ?ub"] isv iub osv o(3) by simp
      have lw: "lower_bound w' = ?lb" using w'(1) c1 True by simp
      have uw: "upper_bound w' = (if seq_off ?b (uint ?sv) > seq_off ?b (sint ?ub) then ?sv else ?ub)"
        using w'(2) c1 gt True by simp
      show ?thesis
      proof (cases "seq_off ?b (uint ?sv) > seq_off ?b (sint ?ub)")
        case g: True
        then have u: "upper_bound w' = ?sv" using uw by simp
        show ?thesis unfolding wi lw u att
          using o osv isv ov same pj g by (auto simp: less_imp_le intro: order_trans)
      next
        case g: False
        then have u: "upper_bound w' = ?ub" using uw by simp
        show ?thesis unfolding wi lw u att
          using o osv isv ov same pj g by auto
      qed
    qed
  qed
qed

section \<open>Operations that leave the tables as they are\<close>

lemma map_update_view:
  assumes "j < length xs \<Longrightarrow> f y = f (xs ! j)"
  shows "map f (xs[j := y]) = map f xs"
proof (cases "j < length xs")
  case True
  have "map f (xs[j := y]) = (map f xs)[j := f y]" by (rule map_update)
  also have "\<dots> = (map f xs)[j := map f xs ! j]" using assms True by simp
  also have "\<dots> = map f xs" by (rule list_update_id)
  finally show ?thesis .
next
  case False
  then show ?thesis by (simp add: list_update_beyond)
qed

lemma packet_view_simps [simp]:
  "packet_view (MCAST_PACKET_SEND_SET p) = packet_view p"
  "packet_view (MCAST_PACKET_SEND_CLR p) = packet_view p"
  "packet_view (MCAST_PACKET_LISTED_SET p) = packet_view p"
  "packet_view (MCAST_PACKET_LISTED_CLR p) = packet_view p"
  "packet_view (p\<lparr>active := a\<rparr>) = packet_view p"
  "packet_view (p\<lparr>dwell := a\<rparr>) = packet_view p"
  by (simp_all add: packet_view_def)

lemma window_view_simps [simp]:
  "window_view (SLIDING_WINDOW_LISTED_SET w) = window_view w"
  "window_view (SLIDING_WINDOW_LISTED_CLR w) = window_view w"
  "window_view (w\<lparr>min_listed := a\<rparr>) = window_view w"
  by (simp_all add: window_view_def)

lemma same_tables_t [simp]: "same_tables s (s\<lparr>t := x\<rparr>)"
  by (simp add: same_tables_def)

lemma same_tables_stat [simp]: "same_tables s (s\<lparr>roll_trickle_stat := x\<rparr>)"
  by (simp add: same_tables_def)

lemma same_tables_loctpptr [simp]: "same_tables s (s\<lparr>loctpptr := x\<rparr>)"
  by (simp add: same_tables_def)

lemma same_tables_set_inconsistency [simp]: "same_tables s (set_inconsistency m s)"
  by (simp add: set_inconsistency_def)

lemma same_tables_reset_trickle_timer:
  "reset_trickle_timer m now rnd s = Inr s' \<Longrightarrow> same_tables s s'"
  using reset_trickle_timer_frame_lemma [of m now rnd s s'] by (simp add: same_tables_def)

lemma same_tables_icmp_update_timer:
  "icmp_update_timer m now rnd s = Inr s' \<Longrightarrow> same_tables s s'"
  unfolding icmp_update_timer_def
  by (auto split: if_splits dest: same_tables_reset_trickle_timer)

lemma same_tables_icmp_check_seq: "same_tables s (icmp_check_seq m i val s)"
proof -
  let ?s1 = "if SEQ_VAL_IS_GT (uint val) (sint (upper_bound (windows s ! i)))
             then set_inconsistency m s else s"
  have 1: "same_tables s ?s1" by simp
  have 2: "same_tables ?s1 (icmp_check_seq m i val s)"
    unfolding icmp_check_seq_def Let_def
    by (auto simp: same_tables_def set_inconsistency_def intro!: map_update_view
             split: option.splits)
  from 1 2 show ?thesis by (rule same_tables_trans)
qed

lemma same_tables_fold_check_seq: "same_tables s (fold (icmp_check_seq m i) vals s)"
proof (induction vals arbitrary: s)
  case Nil
  show ?case by simp
next
  case (Cons v vs)
  have "same_tables s (icmp_check_seq m i v s)" by (rule same_tables_icmp_check_seq)
  moreover have "same_tables (icmp_check_seq m i v s) (fold (icmp_check_seq m i) vs (icmp_check_seq m i v s))"
    by (rule Cons.IH)
  ultimately show ?case by (simp add: same_tables_trans)
qed

lemma same_tables_icmp_lists: "same_tables s (snd (icmp_lists cfg sls s))"
proof (induction sls arbitrary: s)
  case Nil
  show ?case by simp
next
  case (Cons l ls)
  let ?m = "SEQUENCE_LIST_GET_M l"
  let ?s1 = "s\<lparr>loctpptr := Some ?m\<rparr>"
  show ?case
  proof (cases "sl_flags l AND SEQUENCE_LIST_RES \<noteq> 0 \<or>
                ROLL_TRICKLE_SHORT_SEEDS cfg \<noteq> SEQUENCE_LIST_GET_S l")
    case True
    then show ?thesis by (auto simp: STATS_ADD_icmp_bad_def)
  next
    case False
    show ?thesis
    proof (cases "window_lookup ?s1 (sl_seed_id l) ?m")
      case None
      have "same_tables s (set_inconsistency ?m ?s1)"
        by (simp add: same_tables_def set_inconsistency_def)
      from same_tables_trans [OF this Cons.IH] show ?thesis using False None by (simp add: Let_def)
    next
      case (Some i)
      let ?s2 = "?s1\<lparr>windows := (windows ?s1)[i := (SLIDING_WINDOW_LISTED_SET (windows ?s1 ! i))
                                                   \<lparr>min_listed := - 1\<rparr>]\<rparr>"
      have a: "same_tables s ?s2"
        by (simp add: same_tables_def map_update_view)
      have b: "same_tables ?s2 (fold (icmp_check_seq ?m i) (seqs l) ?s2)"
        by (rule same_tables_fold_check_seq)
      from same_tables_trans [OF same_tables_trans [OF a b] Cons.IH]
      show ?thesis using False Some by (simp add: Let_def)
    qed
  qed
qed

lemma same_tables_icmp_check_packet:
  "icmp_check_packet j s = Inr s' \<Longrightarrow> same_tables s s'"
  unfolding icmp_check_packet_def Let_def loctpptr_set_inconsistency_def
  by (auto simp: same_tables_def set_inconsistency_def map_update_view
           split: if_splits option.splits sum.splits)

lemma same_tables_icmp_check_packets_from:
  "icmp_check_packets_from n s = Inr s' \<Longrightarrow> same_tables s s'"
proof (induction n arbitrary: s)
  case 0
  then show ?case by simp
next
  case (Suc n)
  then show ?case
    by (auto split: sum.splits dest!: same_tables_icmp_check_packet intro: same_tables_trans)
qed

lemma same_tables_icmp_process:
  assumes "icmp_process cfg sls s = Inr s'"
  shows "same_tables s s'"
proof -
  let ?s2 = "s\<lparr>windows := map SLIDING_WINDOW_LISTED_CLR (windows s),
               buffered_msgs := map MCAST_PACKET_LISTED_CLR (buffered_msgs s)\<rparr>"
  have 1: "same_tables s ?s2" by (simp add: same_tables_def comp_def)
  have 2: "same_tables ?s2 (snd (icmp_lists cfg sls ?s2))" by (rule same_tables_icmp_lists)
  have 3: "same_tables (snd (icmp_lists cfg sls ?s2)) s'"
    using assms unfolding icmp_process_def Let_def
    by (auto split: if_splits dest: same_tables_icmp_check_packets_from)
  show ?thesis using 1 2 3 same_tables_trans by blast
qed

lemma same_tables_icmp_input:
  assumes "roll_trickle_icmp_input cfg dg icode sls now0 rnd0 now1 rnd1 s = Inr s'"
  shows "same_tables s s'"
proof (cases "icmp_input_bad cfg dg icode")
  case True
  with assms show ?thesis by (auto simp: roll_trickle_icmp_input_def STATS_ADD_icmp_bad_def)
next
  case False
  from assms False obtain s1 s2 where
    1: "icmp_process cfg sls (STATS_ADD_icmp_in s) = Inr s1" and
    2: "icmp_update_timer False now0 rnd0 s1 = Inr s2" and
    3: "icmp_update_timer True now1 rnd1 s2 = Inr s'"
    unfolding roll_trickle_icmp_input_def by (auto split: sum.splits)
  have 0: "same_tables s (STATS_ADD_icmp_in s)" by (simp add: STATS_ADD_icmp_in_def)
  show ?thesis
    using 0 same_tables_icmp_process [OF 1] same_tables_icmp_update_timer [OF 2]
      same_tables_icmp_update_timer [OF 3] same_tables_trans by blast
qed

section \<open>The periodic pass and the tables\<close>

lemma handle_packet_tables:
  assumes inv: "table_inv_weak (snd es)" and j: "j < length (buffered_msgs (snd es))"
  shows "table_inv_weak (snd (handle_packet cfg m dl ds j es))"
    and "length (buffered_msgs (snd (handle_packet cfg m dl ds j es))) = length (buffered_msgs (snd es))"
    and "bounds_inv (snd es) \<Longrightarrow> bounds_inv (snd (handle_packet cfg m dl ds j es))"
proof -
  let ?s = "snd es"
  let ?p0 = "buffered_msgs ?s ! j"
  let ?p1 = "if active ?p0 = 0
             then ?p0\<lparr>active := active ?p0 + ds, dwell := dwell ?p0 + ds\<rparr>
             else ?p0\<lparr>active := active ?p0 + dl, dwell := dwell ?p0 + dl\<rparr>"
  let ?w0 = "windows ?s ! sw ?p0"
  let ?w1 = "?w0\<lparr>count := count ?w0 - 1\<rparr>"
  let ?w2 = "if count ?w1 = 0 then window_free ?w1 else ?w1"
  let ?r = "snd (handle_packet cfg m dl ds j es)"
  let ?f = "?s\<lparr>windows := (windows ?s)[sw ?p0 := ?w2],
                buffered_msgs := (buffered_msgs ?s)[j := MCAST_PACKET_FREE ?p1]\<rparr>"
  have p1: "packet_view ?p1 = packet_view ?p0" "sw ?p1 = sw ?p0" by simp_all
  have c: "same_tables ?s ?r \<or> (MCAST_PACKET_IS_USED ?p0 \<and> ?r = ?f)"
    unfolding handle_packet_def Let_def
    by (simp add: same_tables_def map_update_view)
  have "table_inv_weak ?r \<and> length (buffered_msgs ?r) = length (buffered_msgs ?s) \<and>
        (bounds_inv ?s \<longrightarrow> bounds_inv ?r)"
  proof (cases "same_tables ?s ?r")
    case True
    then show ?thesis
      using inv same_tables_table_inv_weak same_tables_lengths(1) same_tables_bounds_inv by blast
  next
    case False
    with c have u: "MCAST_PACKET_IS_USED ?p0" and r: "?r = ?f" by simp_all
    note d = table_inv_weakD [OF inv]
    have jin: "j \<in> set (attached ?s (sw ?p0))" using j u by (simp add: set_attached)
    have i0: "sw ?p0 < length (windows ?s)" by (rule d(2) [OF j u])
    have "unat (count ?w0) = length (attached ?s (sw ?p0))" by (rule d(4) [OF i0])
    with jin have "count ?w0 \<noteq> 0" by (cases "attached ?s (sw ?p0)") auto
    then have used: "SLIDING_WINDOW_IS_USED ?w0" using d(5) [OF i0] by blast
    have ps: "buffered_msgs ?f = (buffered_msgs ?s)[j := MCAST_PACKET_FREE ?p1]" by simp
    have ws: "windows ?f = (windows ?s)[sw ?p0 := ?w2]" by simp
    have w2: "count ?w2 = count ?w0 - 1" "\<not> SLIDING_WINDOW_IS_USED ?w2 \<longrightarrow> count ?w2 = 0"
      "lower_bound ?w2 = lower_bound ?w0" "upper_bound ?w2 = upper_bound ?w0"
      using used by simp_all
    have np: "\<not> MCAST_PACKET_IS_USED (MCAST_PACKET_FREE ?p1)" by simp
    have 1: "table_inv_weak ?f"
      by (rule free_packet_table_inv_weak [OF inv ps ws j u refl np w2(1,2)])
    have 2: "bounds_inv ?s \<Longrightarrow> bounds_inv ?f"
      by (rule free_packet_bounds_inv [OF _ ps ws j np w2(3,4)])
    show ?thesis unfolding r using 1 2 by simp
  qed
  then show "table_inv_weak ?r" "length (buffered_msgs ?r) = length (buffered_msgs ?s)"
    "bounds_inv ?s \<Longrightarrow> bounds_inv ?r" by simp_all
qed

lemma handle_packets_from_tables:
  assumes "table_inv_weak (snd es)" "n \<le> length (buffered_msgs (snd es))"
  shows "table_inv_weak (snd (handle_packets_from cfg m dl ds n es)) \<and>
         (bounds_inv (snd es) \<longrightarrow> bounds_inv (snd (handle_packets_from cfg m dl ds n es)))"
  using assms
proof (induction n arbitrary: es)
  case 0
  then show ?case by simp
next
  case (Suc n)
  let ?e = "handle_packet cfg m dl ds n es"
  have j: "n < length (buffered_msgs (snd es))" using Suc.prems(2) by simp
  note h = handle_packet_tables [OF Suc.prems(1) j, of cfg m dl ds]
  have "n \<le> length (buffered_msgs (snd ?e))" using h(2) j by simp
  from Suc.IH [OF h(1) this] h(3) show ?case by auto
qed

lemma handle_timer_tables:
  assumes inv: "table_inv_weak s" and r: "handle_timer cfg ptr ready now now' rnd s = Inr (evs, s')"
  shows "table_inv_weak s'"
    and "lower_attained s \<Longrightarrow> lower_attained s'"
    and "bounds_inv s \<Longrightarrow> bounds_inv s'"
proof -
  have "table_inv_weak s' \<and> (lower_attained s \<longrightarrow> lower_attained s') \<and> (bounds_inv s \<longrightarrow> bounds_inv s')"
  proof (cases ptr)
    case Other_ptr
    with r have "s' = s" by (simp add: handle_timer_def)
    with inv show ?thesis by simp
  next
    case (Timer m)
    show ?thesis
    proof (cases ready)
      case False
      with r Timer have "same_tables s s'"
        by (auto simp: handle_timer_def split: sum.splits dest: same_tables_reset_trickle_timer)
      then show ?thesis
        using inv same_tables_table_inv_weak same_tables_lower_attained same_tables_bounds_inv
        by blast
    next
      case True
      let ?p0 = "(t s m)\<lparr>t_next := now\<rparr>"
      let ?s1 = "s\<lparr>t := (t s)(m := ?p0\<lparr>t_last_trigger := t_next ?p0\<rparr>)\<rparr>"
      let ?e2 = "handle_timer_messages cfg m now s"
      let ?e3 = "handle_timer_icmp cfg m ?e2"
      let ?s4 = "(snd ?e3)\<lparr>t := (t (snd ?e3))(m := (t (snd ?e3) m)\<lparr>inconsistency := 0, c := 0\<rparr>)\<rparr>"
      have s': "s' = handle_timer_done m now' (snd ?e3)"
        using r Timer True by (simp add: handle_timer_def Let_def)
      have 1: "same_tables s ?s1" by simp
      have i1: "table_inv_weak ?s1" by (rule same_tables_table_inv_weak [OF 1 inv])
      have b1: "bounds_inv s \<Longrightarrow> bounds_inv ?s1" by (rule same_tables_bounds_inv [OF 1])
      have e2: "?e2 = handle_packets_from cfg m (t_next ?p0 - t_last_trigger ?p0)
                        (t_next ?p0 - t_start ?p0) (length (buffered_msgs ?s1)) ([], ?s1)"
        by (simp add: handle_timer_messages_def Let_def)
      have 2: "table_inv_weak (snd ?e2) \<and> (bounds_inv s \<longrightarrow> bounds_inv (snd ?e2))"
        unfolding e2
        using handle_packets_from_tables [of "([], ?s1)" "length (buffered_msgs ?s1)" cfg m] i1 b1
        by simp
      have 3: "same_tables (snd ?e2) (snd ?e3)"
        by (simp add: handle_timer_icmp_def icmp_output_def)
      have 4: "same_tables (snd ?e3) ?s4" by simp
      have 34: "same_tables (snd ?e2) ?s4" by (rule same_tables_trans [OF 3 4])
      have i4: "table_inv_weak ?s4" using same_tables_table_inv_weak [OF 34] 2 by simp
      have b4: "bounds_inv s \<Longrightarrow> bounds_inv ?s4" using same_tables_bounds_inv [OF 34] 2 by simp
      have 5: "same_tables (window_update_bounds ?s4) s'"
        unfolding s' handle_timer_done_def Let_def by simp
      have i5: "table_inv (window_update_bounds ?s4)" by (rule window_update_bounds_table_inv [OF i4])
      have b5: "bounds_inv s \<Longrightarrow> bounds_inv (window_update_bounds ?s4)"
        by (rule window_update_bounds_bounds_inv [OF i4 b4])
      show ?thesis
        using same_tables_table_inv [OF 5 i5] same_tables_bounds_inv [OF 5] b5
        by (auto simp: table_inv_def)
    qed
  qed
  then show "table_inv_weak s'" "lower_attained s \<Longrightarrow> lower_attained s'"
    "bounds_inv s \<Longrightarrow> bounds_inv s'" by simp_all
qed

lemma handle_timer_table_inv:
  "table_inv s \<Longrightarrow> handle_timer cfg ptr ready now now' rnd s = Inr (evs, s') \<Longrightarrow> table_inv s'"
  using handle_timer_tables(1,2) [of s cfg ptr ready now now' rnd evs s']
  by (simp add: table_inv_def)


section \<open>Initialisation and the tables\<close>

lemma attached_replicate_zero:
  "buffered_msgs s = replicate n zero_packet \<Longrightarrow> attached s i = []"
  by (simp add: attached_def zero_packet_def MCAST_PACKET_IS_USED_def filter_empty_conv)

lemma init_tables:
  assumes "roll_trickle_init cfg cnow0 now0 rnd0 cnow1 now1 rnd1 s = Inr s'"
  shows "windows s' = replicate (ROLL_TRICKLE_WINS cfg) (init_window cfg)"
    and "buffered_msgs s' = replicate (ROLL_TRICKLE_BUFF_NUM cfg) zero_packet"
  using assms unfolding roll_trickle_init_def Let_def TIMER_CONFIGURE_def
  by (auto split: sum.splits dest!: reset_trickle_timer_frame_lemma)

lemma init_engine_inv:
  assumes "roll_trickle_init cfg cnow0 now0 rnd0 cnow1 now1 rnd1 s = Inr s'"
    and "ROLL_TRICKLE_BUFF_NUM cfg \<le> 255"
  shows "engine_inv s'"
proof -
  note i = init_tables [OF assms(1)]
  have a: "attached s' i = []" for i by (rule attached_replicate_zero [OF i(2)])
  show ?thesis
    unfolding engine_inv_def table_inv_def table_inv_weak_def lower_attained_def bounds_inv_def
    using assms(2)
    by (simp add: a i init_window_def zero_packet_def MCAST_PACKET_IS_USED_def)
qed

section \<open>The scans of the tables\<close>

lemma reclaim_largest_less:
  "lg < length ws \<Longrightarrow> n \<le> length ws \<Longrightarrow> reclaim_largest n ws lg < length ws"
  by (induction n arbitrary: lg) simp_all

lemma reclaim_largest_max:
  "count (ws ! lg) \<le> count (ws ! reclaim_largest n ws lg) \<and>
   (\<forall>i<n. count (ws ! i) \<le> count (ws ! reclaim_largest n ws lg))"
proof (induction n arbitrary: lg)
  case 0
  show ?case by simp
next
  case (Suc n)
  define lg' where "lg' = (if count (ws ! n) > count (ws ! lg) then n else lg)"
  have r: "reclaim_largest (Suc n) ws lg = reclaim_largest n ws lg'" by (simp add: lg'_def)
  have ih: "count (ws ! lg') \<le> count (ws ! reclaim_largest n ws lg')"
    "\<And>i. i < n \<Longrightarrow> count (ws ! i) \<le> count (ws ! reclaim_largest n ws lg')"
    using Suc.IH [of lg'] by simp_all
  have a: "count (ws ! lg) \<le> count (ws ! lg')" "count (ws ! n) \<le> count (ws ! lg')"
    by (auto simp: lg'_def)
  have 1: "count (ws ! lg) \<le> count (ws ! reclaim_largest n ws lg')"
    using a(1) ih(1) by (rule order_trans)
  have 2: "count (ws ! n) \<le> count (ws ! reclaim_largest n ws lg')"
    using a(2) ih(1) by (rule order_trans)
  show ?case unfolding r using 1 2 ih(2) by (auto simp: less_Suc_eq)
qed

lemma reclaim_find_Some:
  "reclaim_find n ps lg w = Some j \<Longrightarrow>
     j < n \<and> MCAST_PACKET_IS_USED (ps ! j) \<and> sw (ps ! j) = lg \<and>
     uint (seq_val (ps ! j)) = sint (lower_bound w)"
  by (induction n) (auto simp: SEQ_VAL_IS_EQ_def less_Suc_eq split: if_splits)

lemma reclaim_find_None:
  "reclaim_find n ps lg w = None \<Longrightarrow> j < n \<Longrightarrow> MCAST_PACKET_IS_USED (ps ! j) \<Longrightarrow>
     sw (ps ! j) = lg \<Longrightarrow> uint (seq_val (ps ! j)) \<noteq> sint (lower_bound w)"
  by (induction n) (auto simp: SEQ_VAL_IS_EQ_def less_Suc_eq split: if_splits)

lemma buffer_allocate_from_Some:
  "buffer_allocate_from n ps = Some j \<Longrightarrow> j < n \<and> \<not> MCAST_PACKET_IS_USED (ps ! j)"
  by (induction n) (auto simp: less_Suc_eq split: if_splits)

lemma buffer_allocate_from_None:
  "buffer_allocate_from n ps = None \<Longrightarrow> j < n \<Longrightarrow> MCAST_PACKET_IS_USED (ps ! j)"
  by (induction n) (auto simp: less_Suc_eq split: if_splits)

lemma buffer_allocate_Some:
  "buffer_allocate s = Some j \<Longrightarrow>
     j < length (buffered_msgs s) \<and> \<not> MCAST_PACKET_IS_USED (buffered_msgs s ! j)"
  unfolding buffer_allocate_def by (rule buffer_allocate_from_Some)

lemma buffer_allocate_None:
  "buffer_allocate s = None \<Longrightarrow> j < length (buffered_msgs s) \<Longrightarrow>
     MCAST_PACKET_IS_USED (buffered_msgs s ! j)"
  unfolding buffer_allocate_def by (rule buffer_allocate_from_None)

lemma window_allocate_from_Some:
  "window_allocate_from n ws = Some (i, ws') \<Longrightarrow>
     i < n \<and> \<not> SLIDING_WINDOW_IS_USED (ws ! i) \<and>
     ws' = ws[i := (ws ! i)\<lparr>lower_bound := - 1, upper_bound := - 1, min_listed := - 1, count := 0\<rparr>]"
  by (induction n) (auto simp: less_Suc_eq split: if_splits)

lemma window_allocate_Some:
  assumes "window_allocate s = (Some i, s')"
  shows "i < length (windows s)" "\<not> SLIDING_WINDOW_IS_USED (windows s ! i)"
    "s' = s\<lparr>windows := (windows s)[i := (windows s ! i)\<lparr>lower_bound := - 1, upper_bound := - 1,
                                                       min_listed := - 1, count := 0\<rparr>]\<rparr>"
  using assms unfolding window_allocate_def
  by (auto split: option.splits dest!: window_allocate_from_Some)

lemma window_allocate_None:
  "window_allocate s = (None, s') \<Longrightarrow> s' = s"
  unfolding window_allocate_def by (auto split: option.splits)

lemma window_lookup_from_Some:
  "window_lookup_from n ws sd m = Some i \<Longrightarrow> i < n \<and> SLIDING_WINDOW_GET_M (ws ! i) = m"
  by (induction n) (auto simp: less_Suc_eq split: if_splits)

lemma window_lookup_Some:
  "window_lookup s sd m = Some i \<Longrightarrow>
     i < length (windows s) \<and> SLIDING_WINDOW_GET_M (windows s ! i) = m"
  unfolding window_lookup_def by (rule window_lookup_from_Some)

section \<open>Reclaiming a slot\<close>

text \<open>The state in which \<^verbatim>\<open>buffer_reclaim\<close> calls \<^verbatim>\<open>window_update_bounds\<close>.\<close>

lemma buffer_reclaim_None:
  "buffer_reclaim s = (None, s') \<Longrightarrow> s' = s"
  unfolding buffer_reclaim_def Let_def by (auto split: if_splits option.splits)

lemma buffer_reclaim_Some:
  assumes "buffer_reclaim s = (Some rv, s')"
  shows "reclaim_find (length (buffered_msgs s)) (buffered_msgs s)
           (reclaim_largest (length (windows s)) (windows s) 0)
           (windows s ! reclaim_largest (length (windows s)) (windows s) 0) = Some rv"
    and "count (windows s ! reclaim_largest (length (windows s)) (windows s) 0) \<noteq> 1"
    and "s' = window_update_bounds
           (s\<lparr>buffered_msgs := (buffered_msgs s)[rv := MCAST_PACKET_FREE (buffered_msgs s ! rv)],
              windows := (windows s)[reclaim_largest (length (windows s)) (windows s) 0 :=
                (windows s ! reclaim_largest (length (windows s)) (windows s) 0)
                  \<lparr>count := count (windows s ! reclaim_largest (length (windows s)) (windows s) 0) - 1\<rparr>]\<rparr>)"
  using assms unfolding buffer_reclaim_def Let_def by (auto split: if_splits option.splits)

lemma buffer_reclaim_tables:
  assumes inv: "table_inv_weak s" and r: "buffer_reclaim s = (Some rv, s')"
  shows "table_inv s'"
    and "rv < length (buffered_msgs s)"
    and "buffered_msgs s' = (buffered_msgs s)[rv := MCAST_PACKET_FREE (buffered_msgs s ! rv)]"
    and "length (windows s') = length (windows s)"
    and "bounds_inv s \<Longrightarrow> bounds_inv s'"
proof -
  let ?lg = "reclaim_largest (length (windows s)) (windows s) 0"
  let ?w = "windows s ! ?lg"
  let ?w' = "?w\<lparr>count := count ?w - 1\<rparr>"
  let ?f = "s\<lparr>buffered_msgs := (buffered_msgs s)[rv := MCAST_PACKET_FREE (buffered_msgs s ! rv)],
              windows := (windows s)[?lg := ?w']\<rparr>"
  note b = buffer_reclaim_Some [OF r]
  note f = reclaim_find_Some [OF b(1)]
  note d = table_inv_weakD [OF inv]
  from f have rv: "rv < length (buffered_msgs s)" and u: "MCAST_PACKET_IS_USED (buffered_msgs s ! rv)"
    and sw: "sw (buffered_msgs s ! rv) = ?lg" by simp_all
  have lg: "?lg < length (windows s)" using d(2) [OF rv u] sw by simp
  have jin: "rv \<in> set (attached s ?lg)" using rv u sw by (simp add: set_attached)
  have "unat (count ?w) = length (attached s ?lg)" by (rule d(4) [OF lg])
  with jin have "count ?w \<noteq> 0" by (cases "attached s ?lg") auto
  then have used: "SLIDING_WINDOW_IS_USED ?w" using d(5) [OF lg] by blast
  have ps: "buffered_msgs ?f = (buffered_msgs s)[rv := MCAST_PACKET_FREE (buffered_msgs s ! rv)]"
    by simp
  have ws: "windows ?f = (windows s)[?lg := ?w']" by simp
  have np: "\<not> MCAST_PACKET_IS_USED (MCAST_PACKET_FREE (buffered_msgs s ! rv))" by simp
  have w': "count ?w' = count ?w - 1" "\<not> SLIDING_WINDOW_IS_USED ?w' \<longrightarrow> count ?w' = 0"
    "lower_bound ?w' = lower_bound ?w" "upper_bound ?w' = upper_bound ?w"
    using used by simp_all
  have 1: "table_inv_weak ?f"
    by (rule free_packet_table_inv_weak [OF inv ps ws rv u sw np w'(1,2)])
  have 2: "bounds_inv s \<Longrightarrow> bounds_inv ?f"
    by (rule free_packet_bounds_inv [OF _ ps ws rv np w'(3,4)])
  show "table_inv s'" unfolding b(3) by (rule window_update_bounds_table_inv [OF 1])
  show "rv < length (buffered_msgs s)" by (rule rv)
  show "buffered_msgs s' = (buffered_msgs s)[rv := MCAST_PACKET_FREE (buffered_msgs s ! rv)]"
    unfolding b(3) by simp
  show "length (windows s') = length (windows s)" unfolding b(3) by simp
  show "bounds_inv s \<Longrightarrow> bounds_inv s'"
    unfolding b(3) using window_update_bounds_bounds_inv [OF 1] 2 by simp
qed

text \<open>
  With every slot in use and the lower bounds attained, \<^verbatim>\<open>buffer_reclaim\<close> finds its
  packet whenever the largest count is not 1.
\<close>

lemma buffer_reclaim_finds:
  assumes inv: "table_inv s" and full: "buffer_allocate s = None"
    and B: "0 < length (buffered_msgs s)"
  shows "reclaim_largest (length (windows s)) (windows s) 0 < length (windows s)"
    and "count (windows s ! reclaim_largest (length (windows s)) (windows s) 0) \<noteq> 0"
    and "reclaim_find (length (buffered_msgs s)) (buffered_msgs s)
           (reclaim_largest (length (windows s)) (windows s) 0)
           (windows s ! reclaim_largest (length (windows s)) (windows s) 0) \<noteq> None"
proof -
  let ?lg = "reclaim_largest (length (windows s)) (windows s) 0"
  have weak: "table_inv_weak s" and la: "lower_attained s" using inv by (simp_all add: table_inv_def)
  note d = table_inv_weakD [OF weak]
  have u0: "MCAST_PACKET_IS_USED (buffered_msgs s ! 0)" by (rule buffer_allocate_None [OF full B])
  let ?i = "sw (buffered_msgs s ! 0)"
  have i: "?i < length (windows s)" by (rule d(2) [OF B u0])
  then have W: "0 < length (windows s)" by (cases "windows s") simp_all
  show lg: "?lg < length (windows s)" by (rule reclaim_largest_less [OF W]) simp
  have "0 \<in> set (attached s ?i)" using B u0 by (simp add: set_attached)
  then have "length (attached s ?i) \<noteq> 0" by (cases "attached s ?i") auto
  then have "count (windows s ! ?i) \<noteq> 0" using d(4) [OF i] by (simp flip: unat_eq_zero)
  moreover have "count (windows s ! ?i) \<le> count (windows s ! ?lg)"
    using reclaim_largest_max [of "windows s" 0 "length (windows s)"] i by blast
  ultimately show c: "count (windows s ! ?lg) \<noteq> 0" by auto
  then have "attached s ?lg \<noteq> []" using d(4) [OF lg] by (auto simp flip: unat_eq_zero)
  with la lg obtain j where j: "j \<in> set (attached s ?lg)"
    and v: "uint (seq_val (buffered_msgs s ! j)) = sint (lower_bound (windows s ! ?lg))"
    unfolding lower_attained_def by blast
  note a = attached_used [OF j]
  show "reclaim_find (length (buffered_msgs s)) (buffered_msgs s) ?lg (windows s ! ?lg) \<noteq> None"
    using reclaim_find_None [OF _ a(1,2,3)] v by blast
qed

section \<open>Reclaiming from another window\<close>

lemma window_update_bounds_keeps_lower:
  assumes inv: "table_inv_weak s" and b: "bounds_inv s" and il: "i < length (windows s)"
    and att: "\<exists>j\<in>set (attached s i).
                uint (seq_val (buffered_msgs s ! j)) = sint (lower_bound (windows s ! i))"
  shows "lower_bound (windows (window_update_bounds s) ! i) = lower_bound (windows s ! i)"
proof -
  let ?s = "window_update_bounds s"
  note d = table_inv_weakD [OF inv]
  let ?lb = "lower_bound (windows s ! i)" and ?ub = "upper_bound (windows s ! i)"
  let ?l = "lower_bound (windows ?s ! i)"
  let ?b = "sint ?lb"
  from att obtain j0 where j0: "j0 \<in> set (attached s i)"
    and v0: "uint (seq_val (buffered_msgs s ! j0)) = ?b" by blast
  then have ne0: "attached s i \<noteq> []" by auto
  then have neA: "attached_seqs s i \<noteq> []" by (simp add: attached_seqs_Nil_iff)
  from b il ne0 have old: "0 \<le> ?b" "0 \<le> sint ?ub" "seq_off ?b (sint ?ub) < 0x4000"
    and oldv: "\<forall>j\<in>set (attached s i). seq_off ?b (uint (seq_val (buffered_msgs s ! j))) \<le> seq_off ?b (sint ?ub)"
    unfolding bounds_inv_def by blast+
  have b2: "?b \<le> 0x7FFF" using sint_lt [of ?lb] by simp
  have vals: "v \<in> set (attached_seqs s i) \<Longrightarrow>
                v \<le> 0x7FFF \<and> seq_off ?b (uint v) \<le> seq_off ?b (sint ?ub)" for v
    unfolding set_attached_seqs using d(3) attached_used oldv by auto
  have whw: "within_half_window ?b (attached_seqs s i)"
    unfolding within_half_window_def using vals old(3) by fastforce
  note lo = window_update_bounds_lower [OF il neA old(1) b2 whw]
  from lo have lm: "?l \<in> set (attached_seqs s i)"
    and lmin: "\<forall>v\<in>set (attached_seqs s i). seq_off ?b (uint ?l) \<le> seq_off ?b (uint v)"
    by simp_all
  have "seq_val (buffered_msgs s ! j0) \<in> set (attached_seqs s i)"
    unfolding set_attached_seqs using j0 by simp
  with lmin have "seq_off ?b (uint ?l) \<le> seq_off ?b (uint (seq_val (buffered_msgs s ! j0)))"
    by blast
  then have z: "seq_off ?b (uint ?l) = 0"
    using v0 seq_off_range [of ?b "uint ?l"] by simp
  have l15: "?l \<le> 0x7FFF" using vals lm by simp
  note il15 = seq15_ints [OF l15]
  have "uint ?l = ?b"
    using seq_off_cases [OF old(1) b2, of "uint ?l"] il15 z b2 by auto
  moreover have "?b = uint ?lb" using seq15_ints [OF sint_nonneg_seq15 [OF old(1)]] by simp
  ultimately show ?thesis using word_uint_eq_iff [of ?l ?lb] by simp
qed

lemma buffer_reclaim_other_window:
  assumes inv: "table_inv s" and b: "bounds_inv s" and r: "buffer_reclaim s = (Some rv, s')"
    and il: "i < length (windows s)" and ne: "i \<noteq> largest_window s"
  shows "count (windows s' ! i) = count (windows s ! i)"
    and "count (windows s ! i) \<noteq> 0 \<Longrightarrow> lower_bound (windows s' ! i) = lower_bound (windows s ! i)"
proof -
  let ?lg = "reclaim_largest (length (windows s)) (windows s) 0"
  let ?w = "windows s ! ?lg"
  let ?w' = "?w\<lparr>count := count ?w - 1\<rparr>"
  let ?f = "s\<lparr>buffered_msgs := (buffered_msgs s)[rv := MCAST_PACKET_FREE (buffered_msgs s ! rv)],
              windows := (windows s)[?lg := ?w']\<rparr>"
  have weak: "table_inv_weak s" and la: "lower_attained s" using inv by (simp_all add: table_inv_def)
  have ne': "i \<noteq> ?lg" using ne by (simp add: largest_window_def)
  note br = buffer_reclaim_Some [OF r]
  note f = reclaim_find_Some [OF br(1)]
  note d = table_inv_weakD [OF weak]
  from f have rv: "rv < length (buffered_msgs s)" and u: "MCAST_PACKET_IS_USED (buffered_msgs s ! rv)"
    and sw: "sw (buffered_msgs s ! rv) = ?lg" by simp_all
  have lg: "?lg < length (windows s)" using d(2) [OF rv u] sw by simp
  have jin: "rv \<in> set (attached s ?lg)" using rv u sw by (simp add: set_attached)
  have "unat (count ?w) = length (attached s ?lg)" by (rule d(4) [OF lg])
  with jin have "count ?w \<noteq> 0" by (cases "attached s ?lg") auto
  then have used: "SLIDING_WINDOW_IS_USED ?w" using d(5) [OF lg] by blast
  have ps: "buffered_msgs ?f = (buffered_msgs s)[rv := MCAST_PACKET_FREE (buffered_msgs s ! rv)]"
    by simp
  have ws: "windows ?f = (windows s)[?lg := ?w']" by simp
  have np: "\<not> MCAST_PACKET_IS_USED (MCAST_PACKET_FREE (buffered_msgs s ! rv))" by simp
  have w': "count ?w' = count ?w - 1" "\<not> SLIDING_WINDOW_IS_USED ?w' \<longrightarrow> count ?w' = 0"
    "lower_bound ?w' = lower_bound ?w" "upper_bound ?w' = upper_bound ?w"
    using used by simp_all
  have 1: "table_inv_weak ?f"
    by (rule free_packet_table_inv_weak [OF weak ps ws rv u sw np w'(1,2)])
  have 2: "bounds_inv ?f"
    by (rule free_packet_bounds_inv [OF b ps ws rv np w'(3,4)])
  have wi: "windows ?f ! i = windows s ! i" using ne' by simp
  have il': "i < length (windows ?f)" using il by simp
  show "count (windows s' ! i) = count (windows s ! i)"
    unfolding br(3) nth_window_update_bounds [OF il'] using ne' by simp
  show "lower_bound (windows s' ! i) = lower_bound (windows s ! i)" if c: "count (windows s ! i) \<noteq> 0"
  proof -
    have "attached s i \<noteq> []" using c count_zero_attached [OF weak il] by simp
    with la il obtain j0 where j0: "j0 \<in> set (attached s i)"
      and v0: "uint (seq_val (buffered_msgs s ! j0)) = sint (lower_bound (windows s ! i))"
      unfolding lower_attained_def by blast
    have "j0 \<noteq> rv" using attached_used(3) [OF j0] sw ne' by auto
    then have "j0 \<in> set (attached ?f i)" "buffered_msgs ?f ! j0 = buffered_msgs s ! j0"
      using attached_free(1) [OF ps rv np, of i] j0 by simp_all
    then have att: "\<exists>j\<in>set (attached ?f i).
                uint (seq_val (buffered_msgs ?f ! j)) = sint (lower_bound (windows ?f ! i))"
      using v0 wi by (intro bexI [of _ j0]) simp_all
    have "lower_bound (windows (window_update_bounds ?f) ! i) = lower_bound (windows ?f ! i)"
      by (rule window_update_bounds_keeps_lower [OF 1 2 il' att])
    then show ?thesis unfolding br(3) using wi by simp
  qed
qed

section \<open>Admission and the tables\<close>

lemma same_tables_stats [simp]:
  "same_tables s (STATS_ADD_mcast_bad s)"
  "same_tables s (STATS_ADD_mcast_dropped s)"
  "same_tables s (STATS_ADD_mcast_in_all s)"
  "same_tables s (STATS_ADD_mcast_in_unique s)"
  by (simp_all add: STATS_ADD_mcast_bad_def STATS_ADD_mcast_dropped_def
        STATS_ADD_mcast_in_all_def STATS_ADD_mcast_in_unique_def)

lemma window_change_empty:
  assumes inv: "table_inv_weak s"
    and ws: "windows s' = (windows s)[i := w']" and ps: "buffered_msgs s' = buffered_msgs s"
    and i: "i < length (windows s)"
    and c: "count (windows s ! i) = 0" "count w' = 0"
  shows "table_inv_weak s'"
    and "lower_attained s \<Longrightarrow> lower_attained s'"
    and "bounds_inv s \<Longrightarrow> bounds_inv s'"
proof -
  note d = table_inv_weakD [OF inv]
  have a: "attached s' k = attached s k" for k by (rule attached_cong [OF ps])
  have e: "attached s i = []" using count_zero_attached [OF inv i] c(1) by simp
  have w: "k \<noteq> i \<Longrightarrow> windows s' ! k = windows s ! k" for k using ws by simp
  have wi: "windows s' ! i = w'" using ws i by simp
  have l: "length (windows s') = length (windows s)" using ws by simp
  show "table_inv_weak s'"
    unfolding table_inv_weak_def
  proof (intro conjI allI impI)
    show "length (buffered_msgs s') \<le> 255" using d(1) ps by simp
  next
    fix j assume "j < length (buffered_msgs s')" "MCAST_PACKET_IS_USED (buffered_msgs s' ! j)"
    then show "sw (buffered_msgs s' ! j) < length (windows s')"
      "seq_val (buffered_msgs s' ! j) \<le> 0x7FFF"
      using d(2,3) [of j] ps l by simp_all
  next
    fix k assume k: "k < length (windows s')"
    show "unat (count (windows s' ! k)) = length (attached s' k)"
      using k l d(4) [of k] a e c(2) w wi by (cases "k = i") simp_all
  next
    fix k assume k: "k < length (windows s')" and u: "\<not> SLIDING_WINDOW_IS_USED (windows s' ! k)"
    show "count (windows s' ! k) = 0"
      using k u l d(5) [of k] c(2) w wi by (cases "k = i") simp_all
  qed
  show "lower_attained s'" if la: "lower_attained s"
    unfolding lower_attained_def
  proof (intro allI impI)
    fix k assume k: "k < length (windows s')" and ne: "attached s' k \<noteq> []"
    then have ki: "k \<noteq> i" using a e by auto
    show "\<exists>j\<in>set (attached s' k).
            uint (seq_val (buffered_msgs s' ! j)) = sint (lower_bound (windows s' ! k))"
      using la k ne l unfolding lower_attained_def a ps w [OF ki] by simp
  qed
  show "bounds_inv s'" if b: "bounds_inv s"
    unfolding bounds_inv_def
  proof (intro allI impI)
    fix k assume k: "k < length (windows s')" and ne: "attached s' k \<noteq> []"
    then have ki: "k \<noteq> i" using a e by auto
    show "0 \<le> sint (lower_bound (windows s' ! k)) \<and>
          0 \<le> sint (upper_bound (windows s' ! k)) \<and>
          seq_off (sint (lower_bound (windows s' ! k))) (sint (upper_bound (windows s' ! k))) < 0x4000 \<and>
          (\<forall>j\<in>set (attached s' k).
             seq_off (sint (lower_bound (windows s' ! k))) (uint (seq_val (buffered_msgs s' ! j)))
               \<le> seq_off (sint (lower_bound (windows s' ! k))) (sint (upper_bound (windows s' ! k))))"
      using b k ne l unfolding bounds_inv_def a ps w [OF ki] by simp
  qed
qed

lemma window_allocate_tables:
  assumes inv: "table_inv s" and r: "window_allocate s = (Some i, s')"
  shows "table_inv s'" and "i < length (windows s')" and "buffered_msgs s' = buffered_msgs s"
    and "count (windows s' ! i) = 0" and "bounds_inv s \<Longrightarrow> bounds_inv s'"
proof -
  have weak: "table_inv_weak s" and la: "lower_attained s" using inv by (simp_all add: table_inv_def)
  note a = window_allocate_Some [OF r]
  let ?w = "(windows s ! i)\<lparr>lower_bound := - 1, upper_bound := - 1, min_listed := - 1, count := 0\<rparr>"
  have ws: "windows s' = (windows s)[i := ?w]" and ps: "buffered_msgs s' = buffered_msgs s"
    unfolding a(3) by simp_all
  have c: "count (windows s ! i) = 0" by (rule table_inv_weakD(5) [OF weak a(1,2)])
  have c': "count ?w = 0" by simp
  note e = window_change_empty [OF weak ws ps a(1) c c']
  show "table_inv s'" using e(1) e(2) [OF la] by (simp add: table_inv_def)
  show "i < length (windows s')" using ws a(1) by simp
  show "buffered_msgs s' = buffered_msgs s" by (rule ps)
  show "count (windows s' ! i) = 0" using ws a(1) by simp
  show "bounds_inv s \<Longrightarrow> bounds_inv s'" by (rule e(3))
qed

lemma accept_buffer_tables:
  assumes inv: "table_inv s" and r: "accept_buffer s = (slot, s')"
  shows "table_inv s'"
    and "length (windows s') = length (windows s)"
    and "slot = Some j \<Longrightarrow> j < length (buffered_msgs s') \<and> \<not> MCAST_PACKET_IS_USED (buffered_msgs s' ! j)"
    and "slot = None \<Longrightarrow> s' = s"
    and "buffer_allocate s \<noteq> None \<Longrightarrow> s' = s"
proof -
  have weak: "table_inv_weak s" using inv by (simp add: table_inv_def)
  have "table_inv s' \<and> length (windows s') = length (windows s) \<and>
        (slot = Some j \<longrightarrow> j < length (buffered_msgs s') \<and> \<not> MCAST_PACKET_IS_USED (buffered_msgs s' ! j)) \<and>
        (slot = None \<longrightarrow> s' = s) \<and> (buffer_allocate s \<noteq> None \<longrightarrow> s' = s)"
  proof (cases "buffer_allocate s")
    case (Some j')
    with r have e: "slot = Some j'" "s' = s" by (simp_all add: accept_buffer_def)
    show ?thesis using e inv buffer_allocate_Some [OF Some] by auto
  next
    case None
    with r have br: "buffer_reclaim s = (slot, s')" by (simp add: accept_buffer_def)
    show ?thesis
    proof (cases slot)
      case n: None
      with br have "s' = s" by (auto dest: buffer_reclaim_None)
      with inv n None show ?thesis by simp
    next
      case (Some rv)
      note t = buffer_reclaim_tables [OF weak br [unfolded Some]]
      have "\<not> MCAST_PACKET_IS_USED (buffered_msgs s' ! rv)" using t(2,3) by simp
      with t Some None show ?thesis by auto
    qed
  qed
  then show "table_inv s'" "length (windows s') = length (windows s)"
    "slot = Some j \<Longrightarrow> j < length (buffered_msgs s') \<and> \<not> MCAST_PACKET_IS_USED (buffered_msgs s' ! j)"
    "slot = None \<Longrightarrow> s' = s" "buffer_allocate s \<noteq> None \<Longrightarrow> s' = s" by simp_all
qed

lemma accept_store_result:
  assumes "accept_store cfg inp dg len now rnd seed m sv i slot s = Inr (rv, s')"
  shows "\<exists>j. slot = Some j \<and>
           windows s' = (windows s)[i := accept_window seed m sv (windows s ! i)] \<and>
           buffered_msgs s' = (buffered_msgs s)[j := accept_packet cfg inp dg len i sv]"
  using assms unfolding accept_store_def Let_def
  by (auto split: option.splits sum.splits dest!: reset_trickle_timer_frame_lemma
           simp: set_inconsistency_def STATS_ADD_mcast_in_unique_def)

lemma accept_store_tables:
  assumes inv: "table_inv s"
    and r: "accept_store cfg inp dg len now rnd seed m sv i slot s = Inr (rv, s')"
    and i: "i < length (windows s)"
    and slot: "\<forall>j. slot = Some j \<longrightarrow>
                 j < length (buffered_msgs s) \<and> \<not> MCAST_PACKET_IS_USED (buffered_msgs s ! j)"
    and sv: "sv \<le> 0x7FFF"
  shows "table_inv s'"
    and "bounds_inv s \<Longrightarrow>
         (count (windows s ! i) \<noteq> 0 \<longrightarrow> seq_off (sint (lower_bound (windows s ! i))) (uint sv) < 0x4000) \<Longrightarrow>
         bounds_inv s'"
proof -
  from accept_store_result [OF r] obtain j where j: "slot = Some j"
    and ws: "windows s' = (windows s)[i := accept_window seed m sv (windows s ! i)]"
    and ps: "buffered_msgs s' = (buffered_msgs s)[j := accept_packet cfg inp dg len i sv]"
    by blast
  from slot j have jl: "j < length (buffered_msgs s)"
    and ju: "\<not> MCAST_PACKET_IS_USED (buffered_msgs s ! j)" by simp_all
  let ?p = "accept_packet cfg inp dg len i sv"
  let ?w = "accept_window seed m sv (windows s ! i)"
  have p: "MCAST_PACKET_IS_USED ?p" "sw ?p = i" "seq_val ?p \<le> 0x7FFF"
    using sv by (simp_all add: accept_packet_fields)
  have w: "count ?w = count (windows s ! i) + 1" "SLIDING_WINDOW_IS_USED ?w"
    "lower_bound ?w = (if count (windows s ! i) = 0 then seq_val ?p else lower_bound (windows s ! i))"
    by (simp_all add: accept_window_fields accept_packet_fields)
  have wu: "upper_bound ?w =
         (if count (windows s ! i) = 0 \<or>
             SEQ_VAL_IS_GT (uint (seq_val ?p)) (sint (upper_bound (windows s ! i)))
          then seq_val ?p else upper_bound (windows s ! i))"
    by (simp add: accept_window_fields accept_packet_fields)
  show "table_inv s'"
    by (rule store_packet_table_inv [OF inv ps ws jl ju p i w])
  show "bounds_inv s'" if b: "bounds_inv s"
    and pre: "count (windows s ! i) \<noteq> 0 \<longrightarrow> seq_off (sint (lower_bound (windows s ! i))) (uint sv) < 0x4000"
  proof -
    have pre': "count (windows s ! i) \<noteq> 0 \<longrightarrow>
                seq_off (sint (lower_bound (windows s ! i))) (uint (seq_val ?p)) < 0x4000"
      using pre by (simp add: accept_packet_fields)
    show ?thesis
      by (rule store_packet_bounds_inv [OF inv b ps ws jl ju p i w(3) wu pre'])
  qed
qed

lemma buffer_reclaim_largest_count:
  assumes inv: "table_inv_weak s" and r: "buffer_reclaim s = (Some rv, s')"
  shows "count (windows s ! largest_window s) \<noteq> 0"
proof -
  note f = reclaim_find_Some [OF buffer_reclaim_Some(1) [OF r], folded largest_window_def]
  note d = table_inv_weakD [OF inv]
  from f have rv: "rv < length (buffered_msgs s)" and u: "MCAST_PACKET_IS_USED (buffered_msgs s ! rv)"
    and sw: "sw (buffered_msgs s ! rv) = largest_window s" by simp_all
  have lg: "largest_window s < length (windows s)" using d(2) [OF rv u] sw by simp
  have "rv \<in> set (attached s (largest_window s))" using rv u sw by (simp add: set_attached)
  then have "attached s (largest_window s) \<noteq> []" by auto
  then show ?thesis using count_zero_attached [OF inv lg] by simp
qed

lemma accept_store_rv:
  "accept_store cfg inp dg len now rnd seed m sv i slot s = Inr (rv, s') \<Longrightarrow> rv = 1"
  unfolding accept_store_def Let_def
  by (auto split: option.splits sum.splits)

lemma accept_buffer_bounds_inv:
  assumes inv: "table_inv s" and r: "accept_buffer s = (slot, s')" and b: "bounds_inv s"
  shows "bounds_inv s'"
proof (cases "buffer_allocate s")
  case (Some j)
  with r have "s' = s" by (simp add: accept_buffer_def)
  with b show ?thesis by simp
next
  case None
  with r have br: "buffer_reclaim s = (slot, s')" by (simp add: accept_buffer_def)
  have weak: "table_inv_weak s" using inv by (simp add: table_inv_def)
  show ?thesis
  proof (cases slot)
    case n: None
    with br have "s' = s" by (auto dest: buffer_reclaim_None)
    with b show ?thesis by simp
  next
    case (Some rv)
    show ?thesis by (rule buffer_reclaim_tables(5) [OF weak br [unfolded Some] b])
  qed
qed

lemma accept_new_tables:
  assumes inv: "table_inv s"
    and r: "accept_new cfg inp dg len now rnd seed m sv found s = Inr (rv, s')"
    and sv: "sv \<le> 0x7FFF"
    and found: "\<forall>i. found = Some i \<longrightarrow> i < length (windows s)"
  shows "table_inv s'"
    and "bounds_inv s \<Longrightarrow>
         rv \<noteq> 0 \<longrightarrow>
           (\<forall>i. found = Some i \<longrightarrow> count (windows (snd (accept_buffer s)) ! i) \<noteq> 0 \<longrightarrow>
                seq_off (sint (lower_bound (windows (snd (accept_buffer s)) ! i))) (uint sv) < 0x4000) \<Longrightarrow>
         bounds_inv s'"
proof -
  let ?wa = "case found of None \<Rightarrow> window_allocate s | Some i \<Rightarrow> (Some i, s)"
  let ?B = "bounds_inv s \<and>
         (rv \<noteq> 0 \<longrightarrow>
           (\<forall>i. found = Some i \<longrightarrow> count (windows (snd (accept_buffer s)) ! i) \<noteq> 0 \<longrightarrow>
                seq_off (sint (lower_bound (windows (snd (accept_buffer s)) ! i))) (uint sv) < 0x4000))"
  have "table_inv s' \<and> (?B \<longrightarrow> bounds_inv s')"
  proof (cases "fst ?wa")
    case None
    then have f: "found = None" by (cases found) simp_all
    with None have "snd ?wa = s" using window_allocate_None [of s "snd (window_allocate s)"]
      by (cases "window_allocate s") simp
    with r None have "s' = STATS_ADD_mcast_dropped s" by (simp add: accept_new_def Let_def)
    then have "same_tables s s'" by simp
    then show ?thesis using inv same_tables_table_inv same_tables_bounds_inv by blast
  next
    case (Some i)
    let ?s2 = "snd ?wa"
    have wa: "?wa = (Some i, ?s2)" using Some by (cases ?wa) simp
    have s2: "table_inv ?s2 \<and> i < length (windows ?s2) \<and> buffered_msgs ?s2 = buffered_msgs s \<and>
              (bounds_inv s \<longrightarrow> bounds_inv ?s2) \<and>
              (found = None \<longrightarrow> count (windows ?s2 ! i) = 0) \<and>
              (found \<noteq> None \<longrightarrow> ?s2 = s)"
    proof (cases found)
      case None
      with wa have a: "window_allocate s = (Some i, ?s2)" by simp
      note t = window_allocate_tables [OF inv a]
      show ?thesis using t None by simp
    next
      case (Some i')
      with wa have "i' = i" "?s2 = s" by simp_all
      with Some inv found show ?thesis by simp
    qed
    then have inv2: "table_inv ?s2" and i2: "i < length (windows ?s2)"
      and ps2: "buffered_msgs ?s2 = buffered_msgs s"
      and b2imp: "bounds_inv s \<longrightarrow> bounds_inv ?s2"
      and c2: "found = None \<longrightarrow> count (windows ?s2 ! i) = 0"
      and e2: "found \<noteq> None \<longrightarrow> ?s2 = s"
      by simp_all
    let ?ba = "accept_buffer ?s2"
    let ?s3 = "snd ?ba"
    have ba: "accept_buffer ?s2 = (fst ?ba, ?s3)" by simp
    note t = accept_buffer_tables [OF inv2 ba]
    have al: "buffer_allocate ?s2 = buffer_allocate s" by (simp add: buffer_allocate_def ps2)
    have i3: "i < length (windows ?s3)" using t(2) i2 by simp
    have an: "accept_new cfg inp dg len now rnd seed m sv found s =
                (if fst ?ba = None \<and> count (windows ?s3 ! i) = 0
                 then Inr (0, STATS_ADD_mcast_dropped
                                (?s3\<lparr>windows := (windows ?s3)[i := window_free (windows ?s3 ! i)]\<rparr>))
                 else accept_store cfg inp dg len now rnd seed m sv i (fst ?ba) ?s3)"
      unfolding accept_new_def Let_def using Some by simp
    show ?thesis
    proof (cases "fst ?ba = None \<and> count (windows ?s3 ! i) = 0")
      case True
      then have e3: "?s3 = ?s2" using t(4) by simp
      let ?f = "?s2\<lparr>windows := (windows ?s2)[i := window_free (windows ?s2 ! i)]\<rparr>"
      have "Inr (0, STATS_ADD_mcast_dropped
                      (?s3\<lparr>windows := (windows ?s3)[i := window_free (windows ?s3 ! i)]\<rparr>)) =
              (Inr (rv, s') :: fault + (uint8_t \<times> roll_state))"
        using r unfolding an if_P [OF True] .
      then have s': "s' = STATS_ADD_mcast_dropped ?f" using e3 by simp
      have c: "count (windows ?s2 ! i) = 0" using True e3 by simp
      have weak2: "table_inv_weak ?s2" and la2: "lower_attained ?s2"
        using inv2 by (simp_all add: table_inv_def)
      have ws: "windows ?f = (windows ?s2)[i := window_free (windows ?s2 ! i)]"
        and ps: "buffered_msgs ?f = buffered_msgs ?s2" by simp_all
      have c': "count (window_free (windows ?s2 ! i)) = 0" using c by simp
      note e = window_change_empty [OF weak2 ws ps i2 c c']
      have "table_inv ?f" using e(1) e(2) [OF la2] by (simp add: table_inv_def)
      moreover have "bounds_inv s \<longrightarrow> bounds_inv ?f" using e(3) b2imp by blast
      moreover have "same_tables ?f s'" unfolding s' by simp
      ultimately show ?thesis using same_tables_table_inv same_tables_bounds_inv by blast
    next
      case False
      have st: "accept_store cfg inp dg len now rnd seed m sv i (fst ?ba) ?s3 = Inr (rv, s')"
        using r unfolding an if_not_P [OF False] .
      have sl: "\<forall>j. fst ?ba = Some j \<longrightarrow>
                  j < length (buffered_msgs ?s3) \<and> \<not> MCAST_PACKET_IS_USED (buffered_msgs ?s3 ! j)"
        using t(3) by blast
      note a = accept_store_tables [OF t(1) st i3 sl sv]
      have rv1: "rv \<noteq> 0" using accept_store_rv [OF st] by simp
      have "bounds_inv s'" if B: ?B
      proof -
        have b2: "bounds_inv ?s2" using B b2imp by simp
        have b3: "bounds_inv ?s3" by (rule accept_buffer_bounds_inv [OF inv2 ba b2])
        have pre: "count (windows ?s3 ! i) \<noteq> 0 \<longrightarrow>
                   seq_off (sint (lower_bound (windows ?s3 ! i))) (uint sv) < 0x4000"
        proof (cases found)
          case (Some i')
          have es: "?s2 = s" using e2 Some by simp
          have ii: "i' = i" using wa Some by simp
          show ?thesis using B rv1 Some ii unfolding es by simp
        next
          case None
          then have c0: "count (windows ?s2 ! i) = 0" using c2 by simp
          have "count (windows ?s3 ! i) = 0"
          proof (cases "buffer_allocate ?s2 \<noteq> None \<or> fst ?ba = None")
            case True
            have "?s3 = ?s2"
            proof (cases "buffer_allocate ?s2 \<noteq> None")
              case True
              then show ?thesis by (rule t(5))
            next
              case False
              with True have "fst ?ba = None" by simp
              then show ?thesis by (rule t(4))
            qed
            with c0 show ?thesis by simp
          next
            case False
            then obtain slot where sl: "fst ?ba = Some slot" and none: "buffer_allocate ?s2 = None"
              by auto
            have eq: "accept_buffer ?s2 = buffer_reclaim ?s2"
              using none by (simp add: accept_buffer_def)
            have br: "buffer_reclaim ?s2 = (Some slot, ?s3)"
              unfolding eq [symmetric] using sl by (simp add: prod_eq_iff)
            have weak2: "table_inv_weak ?s2" using inv2 by (simp add: table_inv_def)
            have ne: "i \<noteq> largest_window ?s2"
              using c0 buffer_reclaim_largest_count [OF weak2 br] by auto
            show ?thesis using buffer_reclaim_other_window(1) [OF inv2 b2 br i2 ne] c0 by simp
          qed
          then show ?thesis by simp
        qed
        show ?thesis by (rule a(2) [OF b3 pre])
      qed
      with a(1) show ?thesis by blast
    qed
  qed
  then have r1: "table_inv s'" and r2: "?B \<longrightarrow> bounds_inv s'" by simp_all
  show "table_inv s'" by (rule r1)
  show "bounds_inv s'"
    if "bounds_inv s"
      and "rv \<noteq> 0 \<longrightarrow>
           (\<forall>i. found = Some i \<longrightarrow> count (windows (snd (accept_buffer s)) ! i) \<noteq> 0 \<longrightarrow>
                seq_off (sint (lower_bound (windows (snd (accept_buffer s)) ! i))) (uint sv) < 0x4000)"
    using r2 that by simp
qed

lemma same_tables_double_interval:
  "double_interval m now rnd s = Inr s' \<Longrightarrow> same_tables s s'"
  unfolding double_interval_def Let_def
  by (auto split: sum.splits if_splits)

lemma window_lookup_cong: "windows s' = windows s \<Longrightarrow> window_lookup s' sd m = window_lookup s sd m"
  by (simp add: window_lookup_def)

lemma accept_buffer_cong:
  assumes "windows s1 = windows s" and "buffered_msgs s1 = buffered_msgs s"
  shows "windows (snd (accept_buffer s1)) = windows (snd (accept_buffer s))"
  using assms
  unfolding accept_buffer_def buffer_allocate_def buffer_reclaim_def Let_def
    window_update_bounds_def
  by (simp split: option.splits)

lemma accept_tables:
  assumes inv: "table_inv s"
    and r: "roll_trickle_accept cfg inp dg len now rnd s = Inr (rv, s')"
  shows "table_inv s'"
    and "bounds_inv s \<Longrightarrow> rv \<noteq> 0 \<longrightarrow> \<not> stored_out_of_window cfg dg s \<Longrightarrow> bounds_inv s'"
proof -
  let ?s1 = "if inp = ROLL_TRICKLE_DGRAM_IN cfg then STATS_ADD_mcast_in_all s else s"
  let ?seed = "if ROLL_TRICKLE_SHORT_SEEDS cfg then hbho_seed_id dg else srcipaddr dg"
  let ?m = "HBH_GET_M dg"
  let ?sv = "hbho_seq_val dg"
  let ?found = "window_lookup ?s1 ?seed ?m"
  let ?B = "bounds_inv s \<and> (rv \<noteq> 0 \<longrightarrow> \<not> stored_out_of_window cfg dg s)"
  have st: "same_tables s ?s1" by simp
  have w1: "windows ?s1 = windows s" and p1: "buffered_msgs ?s1 = buffered_msgs s"
    by (simp_all add: STATS_ADD_mcast_in_all_def)
  have inv1: "table_inv ?s1" by (rule same_tables_table_inv [OF st inv])
  have b1: "bounds_inv s \<Longrightarrow> bounds_inv ?s1" by (rule same_tables_bounds_inv [OF st])
  have fd: "?found = window_lookup s ?seed ?m" by (rule window_lookup_cong [OF w1])
  have ab: "windows (snd (accept_buffer ?s1)) = windows (snd (accept_buffer s))"
    by (rule accept_buffer_cong [OF w1 p1])
  have "table_inv s' \<and> (?B \<longrightarrow> bounds_inv s')"
  proof (cases "accept_bad cfg dg")
    case True
    with r have "s' = STATS_ADD_mcast_bad s" by (simp add: roll_trickle_accept_def)
    then have "same_tables s s'" by simp
    then show ?thesis using inv same_tables_table_inv same_tables_bounds_inv by blast
  next
    case nb: False
    show ?thesis
    proof (cases "accept_old ?found ?m ?sv ?s1")
      case True
      with r nb have "s' = STATS_ADD_mcast_dropped ?s1"
        by (simp add: roll_trickle_accept_def Let_def)
      then have "same_tables ?s1 s'" by simp
      then show ?thesis using inv1 b1 same_tables_table_inv same_tables_bounds_inv by blast
    next
      case no: False
      with r nb have an: "accept_new cfg inp dg len now rnd ?seed ?m ?sv ?found ?s1 = Inr (rv, s')"
        by (simp add: roll_trickle_accept_def Let_def)
      have found: "\<forall>i. ?found = Some i \<longrightarrow> i < length (windows ?s1)"
        using window_lookup_Some by blast
      note t = accept_new_tables [OF inv1 an hbho_seq_val_15 found]
      have "bounds_inv s'" if B: ?B
      proof -
        have b1': "bounds_inv ?s1" using b1 B by simp
        have pre': "rv \<noteq> 0 \<longrightarrow>
                      (\<forall>i. ?found = Some i \<longrightarrow> count (windows (snd (accept_buffer ?s1)) ! i) \<noteq> 0 \<longrightarrow>
                         seq_off (sint (lower_bound (windows (snd (accept_buffer ?s1)) ! i))) (uint ?sv)
                           < 0x4000)"
        proof (intro impI allI)
          fix i
          assume rv: "rv \<noteq> 0" and f: "?found = Some i"
            and c: "count (windows (snd (accept_buffer ?s1)) ! i) \<noteq> 0"
          have "\<not> stored_out_of_window cfg dg s" using B rv by simp
          then have "\<not> 0x4000 \<le> seq_off (sint (lower_bound (windows (snd (accept_buffer s)) ! i))) (uint ?sv)"
            using f c unfolding stored_out_of_window_def fd [symmetric] ab [symmetric]
            by (simp add: Let_def)
          then show "seq_off (sint (lower_bound (windows (snd (accept_buffer ?s1)) ! i))) (uint ?sv) < 0x4000"
            unfolding ab by simp
        qed
        show ?thesis by (rule t(2) [OF b1' pre'])
      qed
      with t(1) show ?thesis by blast
    qed
  qed
  then have r1: "table_inv s'" and r2: "?B \<longrightarrow> bounds_inv s'" by simp_all
  show "table_inv s'" by (rule r1)
  show "bounds_inv s'"
    if "bounds_inv s" and "rv \<noteq> 0 \<longrightarrow> \<not> stored_out_of_window cfg dg s"
    using r2 that by simp
qed

lemma init_table_inv:
  "roll_trickle_init cfg cnow0 now0 rnd0 cnow1 now1 rnd1 s = Inr s' \<Longrightarrow>
   ROLL_TRICKLE_BUFF_NUM cfg \<le> 255 \<Longrightarrow> table_inv s'"
  using init_engine_inv [of cfg cnow0 now0 rnd0 cnow1 now1 rnd1 s s'] by (simp add: engine_inv_def)

lemma reachable_table_inv:
  assumes "reachable cfg s" "ROLL_TRICKLE_BUFF_NUM cfg \<le> 255"
  shows "table_inv s"
  using assms
proof (induction rule: reachable.induct)
  case (reachable_init cnow0 now0 rnd0 cnow1 now1 rnd1 s0 s)
  then show ?case by (rule init_table_inv)
next
  case (reachable_accept s inp dg uip_len now rnd rv s')
  then show ?case using accept_tables(1) by blast
next
  case (reachable_icmp_input s dg icode sls now0 rnd0 now1 rnd1 s')
  then show ?case using same_tables_icmp_input same_tables_table_inv by blast
next
  case (reachable_handle_timer s ptr ready now now' rnd evs s')
  then show ?case using handle_timer_table_inv by blast
next
  case (reachable_double_interval s m now rnd s')
  then show ?case using same_tables_double_interval same_tables_table_inv by blast
qed



section \<open>The bounds of the windows over the runs of the engine\<close>

text \<open>
  The second way in which the bounds come to exclude an attached packet: the admission
  reclaims a slot from the window of the datagram itself. In \<open>st_aged\<close> both slots hold
  packets of window 1, with the values 5 and 8. The admission of value 7 passes the test
  against the lower bound 5, \<^verbatim>\<open>buffer_reclaim\<close> then frees the packet with value 5 and
  \<^verbatim>\<open>window_update_bounds\<close> moves the lower bound to 8, and the accepting part, which
  does not look at the lower bound of a window that holds packets, stores the value 7
  below it.
\<close>

lemma accept_reclaim_stores_below_lower_bound:
  "\<not> isl (handle_timer cfg0 (Timer False) True 10 10 0 st_two) \<and>
   attached_seqs st_aged 1 = [5, 8] \<and>
   lower_bound (windows st_aged ! 1) = 5 \<and>
   buffer_allocate st_aged = None \<and>
   \<not> isl (roll_trickle_accept cfg0 1 (mcast_dgram seed_a 0 7) 48 100 0 st_aged) \<and>
   attached_seqs st_slid 1 = [7, 8] \<and>
   lower_bound (windows st_slid ! 1) = 8 \<and>
   SEQ_VAL_IS_LT 7 8 \<and>
   \<not> bounds_hold st_slid"
proof -
  have 1: "\<not> bounds_hold st_slid"
    unfolding bounds_hold_def all_less_set_upt by code_simp
  have 2: "\<not> isl (handle_timer cfg0 (Timer False) True 10 10 0 st_two) \<and>
   attached_seqs st_aged 1 = [5, 8] \<and>
   lower_bound (windows st_aged ! 1) = 5 \<and>
   buffer_allocate st_aged = None \<and>
   \<not> isl (roll_trickle_accept cfg0 1 (mcast_dgram seed_a 0 7) 48 100 0 st_aged) \<and>
   attached_seqs st_slid 1 = [7, 8] \<and>
   lower_bound (windows st_slid ! 1) = 8 \<and>
   SEQ_VAL_IS_LT 7 8"
    by code_simp
  from 1 2 show ?thesis by simp
qed

text \<open>
  In both runs a datagram is stored outside its window: the value 7 in \<open>st_aged\<close>, and
  on the node with three slots the value \<open>0x4005\<close> after the value 5.
\<close>

lemma stored_out_of_window_runs:
  "stored_out_of_window cfg0 (mcast_dgram seed_a 0 7) st_aged \<and>
   stored_out_of_window cfg3 (mcast_dgram seed_a 0x40 5) st3_one"
  by code_simp




section \<open>The slot that is reclaimed\<close>

subsection \<open>A run that fills 256 slots\<close>

lemma buffer_allocate_from_top:
  "j < n \<Longrightarrow> \<not> MCAST_PACKET_IS_USED (ps ! j) \<Longrightarrow>
   \<forall>j'. j < j' \<and> j' < n \<longrightarrow> MCAST_PACKET_IS_USED (ps ! j') \<Longrightarrow>
   buffer_allocate_from n ps = Some j"
proof (induction n)
  case 0
  then show ?case by simp
next
  case (Suc n)
  show ?case
  proof (cases "j = n")
    case True
    with Suc.prems show ?thesis by simp
  next
    case False
    then have jn: "j < n" using Suc.prems(1) by simp
    then have "MCAST_PACKET_IS_USED (ps ! n)" using Suc.prems(3) by simp
    moreover have "buffer_allocate_from n ps = Some j"
      using Suc.IH [OF jn Suc.prems(2)] Suc.prems(3) by simp
    ultimately show ?thesis by simp
  qed
qed

lemma buffer_allocate_from_full:
  "\<forall>j<n. MCAST_PACKET_IS_USED (ps ! j) \<Longrightarrow> buffer_allocate_from n ps = None"
  by (induction n) simp_all

lemma reclaim_find_none:
  "\<forall>j<n. MCAST_PACKET_IS_USED (ps ! j) \<longrightarrow> sw (ps ! j) \<noteq> lg \<Longrightarrow>
   reclaim_find n ps lg w = None"
  by (induction n) auto

lemma accept_seen_from_unseen:
  "\<forall>j<n. MCAST_PACKET_IS_USED (ps ! j) \<longrightarrow> seq_val (ps ! j) \<noteq> sv \<Longrightarrow>
   \<not> accept_seen_from n ps ws i m sv"
  by (induction n) (auto simp: SEQ_VAL_IS_EQ_def word_uint_eq_iff [symmetric])

lemma reset_trickle_timer_ok:
  "random_interval (i_min (t s index)) 0 rnd = Inr x \<Longrightarrow>
   \<exists>s'. reset_trickle_timer index now rnd s = Inr s'"
  by (simp add: reset_trickle_timer_def Let_def)

lemma random_interval_64: "random_interval 64 0 0 = Inr 32"
  by code_simp

lemma accept_window_seed: "seed_id (accept_window sd m sv w) = sd"
  by (simp add: accept_window_def Let_def)

lemma accept_window_M_clear: "\<not> SLIDING_WINDOW_GET_M (accept_window sd False sv w)"
proof -
  have "flags (accept_window sd False sv w) =
          (flags w AND NOT SLIDING_WINDOW_M_BIT) OR SLIDING_WINDOW_U_BIT"
    by (simp add: accept_window_def Let_def SLIDING_WINDOW_M_CLR_def SLIDING_WINDOW_IS_USED_SET_def)
  moreover have "\<not> bit (((f AND NOT 0x40) OR 0x80) AND 0x40 :: 8 word) 6" for f :: "8 word"
    by (simp add: bit_simps)
  moreover have "bit (0x40 :: 8 word) 6" by simp
  ultimately show ?thesis
    unfolding SLIDING_WINDOW_GET_M_def SLIDING_WINDOW_M_BIT_def SLIDING_WINDOW_U_BIT_def
    by metis
qed

lemma accept_store_frame:
  assumes "accept_store cfg inp dg len now rnd seed m sv i slot s = Inr (rv, s')"
  shows "mcast_in_unique (roll_trickle_stat s') =
           mcast_in_unique (roll_trickle_stat s) + (if inp = ROLL_TRICKLE_DGRAM_IN cfg then 1 else 0)"
    and "i_min (t s' m') = i_min (t s m')"
  using assms unfolding accept_store_def Let_def
  by (auto split: option.splits sum.splits dest!: reset_trickle_timer_Inr
           simp: set_inconsistency_def STATS_ADD_mcast_in_unique_def)

lemma seq_small:
  assumes "0 \<le> x" "x < 0x4000" "0 \<le> y" "y < 0x4000"
  shows "SEQ_VAL_IS_LT x y \<longleftrightarrow> x < y" and "SEQ_VAL_IS_GT x y \<longleftrightarrow> y < x"
proof -
  have x: "seq_off 0 x = x" and y: "seq_off 0 y = y"
    using assms by (simp_all add: seq_off_def)
  show "SEQ_VAL_IS_LT x y \<longleftrightarrow> x < y"
    using seq_cmp_off(1) [of 0 x y] assms x y by simp
  show "SEQ_VAL_IS_GT x y \<longleftrightarrow> y < x"
    using seq_cmp_off(2) [of 0 x y] assms x y by simp
qed

lemma small_word16:
  assumes "q < 256"
  shows "unat (of_nat q :: 16 word) = q" "uint (of_nat q :: 16 word) = int q"
    "sint (of_nat q :: 16 word) = int q"
proof -
  show u: "unat (of_nat q :: 16 word) = q"
    using assms by (simp add: unsigned_of_nat take_bit_nat_eq_self)
  then show i: "uint (of_nat q :: 16 word) = int q" by (simp add: uint_nat)
  have "(of_nat q :: 16 word) \<le> 0x7FFF" using u assms by (simp add: word_le_nat_alt)
  from seq15_ints [OF this] i show "sint (of_nat q :: 16 word) = int q" by simp
qed

lemma small_word8:
  assumes "q < 256"
  shows "unat (of_nat q :: 8 word) = q"
  using assms by (simp add: unsigned_of_nat take_bit_nat_eq_self)

lemma in_order_seq_val:
  assumes "q < 256"
  shows "hbho_seq_val (mcast_dgram seed_a 0 (of_nat q)) = of_nat q"
proof -
  have "ucast (of_nat q :: 8 word) = (of_nat q :: 16 word)"
    using assms by (simp add: unsigned_of_nat take_bit_nat_eq_self)
  then show ?thesis
    by (simp add: hbho_seq_val_def HBH_GET_SV_MSB_def mcast_dgram_def)
qed

lemma filled_step:
  assumes f: "filled q s" and q: "q < 256"
  shows "\<exists>s'. roll_trickle_accept cfg256 1 (mcast_dgram seed_a 0 (of_nat q)) 48 0 0 s = Inr (1, s') \<and>
              filled (Suc q) s'"
proof -
  let ?dg = "mcast_dgram seed_a 0 (of_nat q)"
  let ?sv = "of_nat q :: 16 word"
  let ?s1 = "STATS_ADD_mcast_in_all s"
  from f have L: "length (buffered_msgs s) = 256" "length (windows s) = 2"
    and U: "\<forall>j<256. MCAST_PACKET_IS_USED (buffered_msgs s ! j) \<longleftrightarrow> 256 - q \<le> j"
    and V: "\<forall>j<256. MCAST_PACKET_IS_USED (buffered_msgs s ! j) \<longrightarrow>
              sw (buffered_msgs s ! j) = 1 \<and> unat (seq_val (buffered_msgs s ! j)) < q"
    and W0: "count (windows s ! 0) = 0" "seed_id (windows s ! 0) \<noteq> seed_a"
    and C1: "count (windows s ! 1) = of_nat q"
    and W1: "if q = 0
      then \<not> SLIDING_WINDOW_IS_USED (windows s ! 1) \<and> seed_id (windows s ! 1) \<noteq> seed_a
      else seed_id (windows s ! 1) = seed_a \<and> \<not> SLIDING_WINDOW_GET_M (windows s ! 1) \<and>
           lower_bound (windows s ! 1) = 0 \<and> upper_bound (windows s ! 1) = of_nat (q - 1)"
    and im: "i_min (t s False) = 64"
    and st: "mcast_in_unique (roll_trickle_stat s) = q"
    unfolding filled_def by blast+
  note w16 = small_word16 [OF q]
  have sv: "hbho_seq_val ?dg = ?sv" by (rule in_order_seq_val [OF q])
  have "hd (srcipaddr ?dg) \<noteq> hd (replicate 16 0 :: 8 word list)"
    by (simp add: mcast_dgram_def)
  then have src: "srcipaddr ?dg \<noteq> replicate 16 0" by auto
  have nb: "\<not> accept_bad cfg256 ?dg"
    using src
    by (simp add: accept_bad_def cfg256_def cfg0_def HBHO_OPT_TYPE_TRICKLE_def
          HBHO_LEN_SHORT_SEED_def) (simp add: mcast_dgram_def)
  have cf: "ROLL_TRICKLE_SHORT_SEEDS cfg256" "ROLL_TRICKLE_DGRAM_IN cfg256 = 1"
    by (simp_all add: cfg256_def cfg0_def)
  have dgf: "hbho_seed_id ?dg = seed_a" "\<not> HBH_GET_M ?dg"
    by (simp_all add: mcast_dgram_def HBH_GET_M_def)
  have s1: "windows ?s1 = windows s" "buffered_msgs ?s1 = buffered_msgs s" "t ?s1 = t s"
    "mcast_in_unique (roll_trickle_stat ?s1) = q"
    using st by (simp_all add: STATS_ADD_mcast_in_all_def)
  have found: "window_lookup ?s1 seed_a False = (if q = 0 then None else Some 1)"
  proof (cases "q = 0")
    case True
    then have "seed_id (windows s ! 1) \<noteq> seed_a" using W1 by simp
    then show ?thesis using True W0
      unfolding window_lookup_def s1 L numeral_2_eq_2 by (auto simp: seed_id_cmp_def)
  next
    case False
    then have "seed_id (windows s ! 1) = seed_a" "\<not> SLIDING_WINDOW_GET_M (windows s ! 1)"
      using W1 by simp_all
    then show ?thesis using False
      unfolding window_lookup_def s1 L numeral_2_eq_2 by (simp add: seed_id_cmp_def)
  qed
  have unseen: "\<not> accept_seen_from 256 (buffered_msgs s) (windows s) 1 False ?sv"
  proof (rule accept_seen_from_unseen, intro allI impI)
    fix j assume "j < 256" "MCAST_PACKET_IS_USED (buffered_msgs s ! j)"
    then have "unat (seq_val (buffered_msgs s ! j)) < q" using V by simp
    then show "seq_val (buffered_msgs s ! j) \<noteq> ?sv" using w16(1) by auto
  qed
  have old: "\<not> accept_old (window_lookup ?s1 seed_a False) False ?sv ?s1"
  proof (cases "q = 0")
    case True
    then show ?thesis by (simp add: found accept_old_def)
  next
    case False
    then have lb: "lower_bound (windows s ! Suc 0) = 0" using W1 by simp
    have "\<not> SEQ_VAL_IS_LT (int q) 0" using seq_small(1) [of "int q" 0] q by simp
    then show ?thesis using False unseen by (simp add: found accept_old_def s1 L lb w16)
  qed
  define s2 where
    "s2 = (if q = 0
           then ?s1\<lparr>windows := (windows ?s1)[1 := (windows ?s1 ! 1)\<lparr>lower_bound := - 1,
                      upper_bound := - 1, min_listed := - 1, count := 0\<rparr>]\<rparr>
           else ?s1)"
  have wa: "(case window_lookup ?s1 seed_a False of None \<Rightarrow> window_allocate ?s1
            | Some i \<Rightarrow> (Some i, ?s1)) = (Some 1, s2)"
  proof (cases "q = 0")
    case True
    then have "\<not> SLIDING_WINDOW_IS_USED (windows s ! 1)" using W1 by simp
    then show ?thesis using True unfolding s2_def
      by (simp add: found window_allocate_def s1 L numeral_2_eq_2)
  next
    case False
    then show ?thesis unfolding s2_def by (simp add: found)
  qed
  have s2: "buffered_msgs s2 = buffered_msgs s" "length (windows s2) = 2"
    "windows s2 ! 0 = windows s ! 0" "count (windows s2 ! 1) = of_nat q" "t s2 = t s"
    "mcast_in_unique (roll_trickle_stat s2) = q"
    "q \<noteq> 0 \<Longrightarrow> windows s2 ! 1 = windows s ! 1"
    unfolding s2_def using s1 L C1 by (simp_all add: numeral_2_eq_2)
  let ?j = "255 - q"
  have ba: "buffer_allocate s2 = Some ?j"
    unfolding buffer_allocate_def s2 L
    by (rule buffer_allocate_from_top) (use U q in auto)
  have ab: "accept_buffer s2 = (Some ?j, s2)" by (simp add: accept_buffer_def ba)
  have an: "accept_new cfg256 1 ?dg 48 0 0 seed_a False ?sv (window_lookup ?s1 seed_a False) ?s1 =
              accept_store cfg256 1 ?dg 48 0 0 seed_a False ?sv 1 (Some ?j) s2"
    unfolding accept_new_def Let_def wa by (simp add: ab)
  have ri: "random_interval (i_min (t (set_inconsistency False s6) False)) 0 0 = Inr 32"
    if "t s6 = t s" for s6 :: roll_state
    using that im by (simp add: set_inconsistency_def random_interval_64)
  obtain s' where as: "accept_store cfg256 1 ?dg 48 0 0 seed_a False ?sv 1 (Some ?j) s2 = Inr (1, s')"
  proof -
    let ?s6 = "(STATS_ADD_mcast_in_unique s2)
                 \<lparr>windows := (windows (STATS_ADD_mcast_in_unique s2))
                               [1 := accept_window seed_a False ?sv (windows (STATS_ADD_mcast_in_unique s2) ! 1)]\<rparr>
                 \<lparr>buffered_msgs := (buffered_msgs (STATS_ADD_mcast_in_unique s2))
                               [?j := accept_packet cfg256 1 ?dg 48 1 ?sv]\<rparr>"
    have "t ?s6 = t s" using s2(5) by (simp add: STATS_ADD_mcast_in_unique_def)
    from reset_trickle_timer_ok [OF ri [OF this], of 0] obtain s8 where
      "reset_trickle_timer False 0 0 (set_inconsistency False ?s6) = Inr s8" by blast
    then have "accept_store cfg256 1 ?dg 48 0 0 seed_a False ?sv 1 (Some ?j) s2 = Inr (1, s8)"
      unfolding accept_store_def Let_def by (simp add: cf)
    then show ?thesis by (rule that)
  qed
  have r: "roll_trickle_accept cfg256 1 ?dg 48 0 0 s = Inr (1, s')"
    unfolding roll_trickle_accept_def Let_def using nb old an as
    by (simp add: cf dgf sv)
  note res = accept_store_result [OF as]
  from res have ws': "windows s' = (windows s2)[1 := accept_window seed_a False ?sv (windows s2 ! 1)]"
    and ps': "buffered_msgs s' = (buffered_msgs s2)[?j := accept_packet cfg256 1 ?dg 48 1 ?sv]"
    by simp_all
  note fr = accept_store_frame [OF as]
  let ?w = "accept_window seed_a False ?sv (windows s2 ! 1)"
  let ?p = "accept_packet cfg256 1 ?dg 48 1 ?sv"
  have c8: "(of_nat q :: 8 word) \<noteq> 0" if "q \<noteq> 0"
  proof
    assume "(of_nat q :: 8 word) = 0"
    then have "unat (of_nat q :: 8 word) = 0" by simp
    with small_word8 [OF q] that show False by simp
  qed
  have wf: "count ?w = of_nat (Suc q)" "seed_id ?w = seed_a" "\<not> SLIDING_WINDOW_GET_M ?w"
    "lower_bound ?w = 0" "upper_bound ?w = of_nat q"
  proof -
    show "count ?w = of_nat (Suc q)" using s2(4) by (simp add: accept_window_fields)
    show "seed_id ?w = seed_a" by (rule accept_window_seed)
    show "\<not> SLIDING_WINDOW_GET_M ?w" by (rule accept_window_M_clear)
    show "lower_bound ?w = 0"
    proof (cases "q = 0")
      case True
      then show ?thesis using s2(4) by (simp add: accept_window_fields)
    next
      case False
      then show ?thesis using W1 c8 s2(4,7) by (simp add: accept_window_fields)
    qed
    show "upper_bound ?w = of_nat q"
    proof (cases "q = 0")
      case True
      then show ?thesis using s2(4) by (simp add: accept_window_fields)
    next
      case False
      then have ub: "upper_bound (windows s ! 1) = of_nat (q - 1)" using W1 by simp
      have q1: "q - 1 < 256" using q by simp
      have "SEQ_VAL_IS_GT (int q) (int (q - 1))"
        using seq_small(2) [of "int q" "int (q - 1)"] q False by simp
      then show ?thesis using False s2(4,7) ub c8 w16 small_word16 [OF q1]
        by (simp add: accept_window_fields)
    qed
  qed
  have pf: "MCAST_PACKET_IS_USED ?p" "sw ?p = 1" "seq_val ?p = ?sv"
    by (simp_all add: accept_packet_fields)
  have "filled (Suc q) s'"
    unfolding filled_def
  proof (intro conjI)
    show "length (buffered_msgs s') = 256" using ps' s2 L by simp
    show "length (windows s') = 2" using ws' s2 by simp
    show "\<forall>j<256. MCAST_PACKET_IS_USED (buffered_msgs s' ! j) \<longleftrightarrow> 256 - Suc q \<le> j"
    proof (intro allI impI)
      fix j assume j: "j < (256::nat)"
      show "MCAST_PACKET_IS_USED (buffered_msgs s' ! j) \<longleftrightarrow> 256 - Suc q \<le> j"
      proof (cases "j = ?j")
        case True
        then show ?thesis using ps' s2 L pf q by simp
      next
        case False
        then have "buffered_msgs s' ! j = buffered_msgs s ! j" using ps' s2 by simp
        then show ?thesis using U j False q by auto
      qed
    qed
    show "\<forall>j<256. MCAST_PACKET_IS_USED (buffered_msgs s' ! j) \<longrightarrow>
            sw (buffered_msgs s' ! j) = 1 \<and> unat (seq_val (buffered_msgs s' ! j)) < Suc q"
    proof (intro allI impI)
      fix j assume j: "j < (256::nat)" and u: "MCAST_PACKET_IS_USED (buffered_msgs s' ! j)"
      show "sw (buffered_msgs s' ! j) = 1 \<and> unat (seq_val (buffered_msgs s' ! j)) < Suc q"
      proof (cases "j = ?j")
        case True
        then show ?thesis using ps' s2 L pf q w16 by simp
      next
        case False
        then have "buffered_msgs s' ! j = buffered_msgs s ! j" using ps' s2 by simp
        then show ?thesis using V j u by auto
      qed
    qed
    show "count (windows s' ! 0) = 0" using ws' s2 W0 by simp
    show "seed_id (windows s' ! 0) \<noteq> seed_a" using ws' s2 W0 by simp
    show "count (windows s' ! 1) = of_nat (Suc q)" using ws' s2 wf by simp
    show "if Suc q = 0
      then \<not> SLIDING_WINDOW_IS_USED (windows s' ! 1) \<and> seed_id (windows s' ! 1) \<noteq> seed_a
      else seed_id (windows s' ! 1) = seed_a \<and> \<not> SLIDING_WINDOW_GET_M (windows s' ! 1) \<and>
           lower_bound (windows s' ! 1) = 0 \<and> upper_bound (windows s' ! 1) = of_nat (Suc q - 1)"
      using ws' s2 wf by simp
    show "i_min (t s' False) = 64" using fr(2) [of False] s2 im by simp
    show "mcast_in_unique (roll_trickle_stat s') = Suc q" using fr(1) s2 cf by simp
  qed
  with r show ?thesis by blast
qed

lemma st256_init_reaches: "roll_trickle_init cfg256 0 0 0 0 0 0 st_boot = Inr st256_init"
proof -
  have "\<not> isl (roll_trickle_init cfg256 0 0 0 0 0 0 st_boot)" by code_simp
  then show ?thesis unfolding st256_init_def by (rule not_isl_projr)
qed

lemma filled_init: "filled 0 st256_init"
proof -
  note i = init_tables [OF st256_init_reaches]
  have c: "ROLL_TRICKLE_WINS cfg256 = 2" "ROLL_TRICKLE_BUFF_NUM cfg256 = 256"
    by (simp_all add: cfg256_def cfg0_def)
  have e: "i_min (t st256_init False) = 64" "mcast_in_unique (roll_trickle_stat st256_init) = 0"
    by code_simp+
  have w: "windows st256_init ! 0 = init_window cfg256" "windows st256_init ! 1 = init_window cfg256"
    unfolding i c by (simp_all add: numeral_2_eq_2)
  have iw: "count (init_window cfg256) = 0" "seed_id (init_window cfg256) \<noteq> seed_a"
    "\<not> SLIDING_WINDOW_IS_USED (init_window cfg256)"
    by code_simp+
  have p: "j < 256 \<Longrightarrow> \<not> MCAST_PACKET_IS_USED (buffered_msgs st256_init ! j)" for j
    unfolding i c by (simp add: zero_packet_def MCAST_PACKET_IS_USED_def)
  show ?thesis
    unfolding filled_def using i c e w iw p by simp
qed

lemma admit_run_filled:
  "n \<le> 256 \<Longrightarrow> \<exists>s. admit_run cfg256 n st256_init = Inr s \<and> filled n s"
proof (induction n)
  case 0
  show ?case using filled_init by simp
next
  case (Suc n)
  then obtain s where s: "admit_run cfg256 n st256_init = Inr s" and f: "filled n s" by auto
  have n: "n < 256" using Suc.prems by simp
  from filled_step [OF f n] obtain s' where
    a: "roll_trickle_accept cfg256 1 (mcast_dgram seed_a 0 (of_nat n)) 48 0 0 s = Inr (1, s')"
    and f': "filled (Suc n) s'" by blast
  show ?case using s a f' by simp
qed

lemma st256_reaches: "admit_run cfg256 256 st256_init = Inr st256" and filled_st256: "filled 256 st256"
proof -
  from admit_run_filled [of 256] obtain s where
    s: "admit_run cfg256 256 st256_init = Inr s" and f: "filled 256 s" by auto
  have e: "st256 = s" unfolding st256_def s by simp
  show "admit_run cfg256 256 st256_init = Inr st256" unfolding e by (rule s)
  show "filled 256 st256" unfolding e by (rule f)
qed

lemma st256_facts:
  "buffer_allocate st256 = None"
  "length (attached st256 1) = 256"
  "count (windows st256 ! 0) = 0" "count (windows st256 ! 1) = 0"
  "largest_window st256 = 0"
  "buffer_reclaim st256 = (None, st256)"
  "mcast_in_unique (roll_trickle_stat st256) = 256"
proof -
  from filled_st256 have L: "length (buffered_msgs st256) = 256" "length (windows st256) = 2"
    and U: "\<forall>j<256. MCAST_PACKET_IS_USED (buffered_msgs st256 ! j) \<longleftrightarrow> 256 - 256 \<le> j"
    and V: "\<forall>j<256. MCAST_PACKET_IS_USED (buffered_msgs st256 ! j) \<longrightarrow>
              sw (buffered_msgs st256 ! j) = 1 \<and> unat (seq_val (buffered_msgs st256 ! j)) < 256"
    and W0: "count (windows st256 ! 0) = 0"
    and C1: "count (windows st256 ! 1) = of_nat 256"
    and st: "mcast_in_unique (roll_trickle_stat st256) = 256"
    unfolding filled_def by blast+
  have used: "\<forall>j<256. MCAST_PACKET_IS_USED (buffered_msgs st256 ! j)" using U by simp
  have sw1: "\<forall>j<256. sw (buffered_msgs st256 ! j) = 1" using used V by simp
  show ba: "buffer_allocate st256 = None"
    unfolding buffer_allocate_def L by (rule buffer_allocate_from_full [OF used])
  have "attached st256 1 = [0..<256]"
    unfolding attached_def L using used sw1 by (simp add: filter_id_conv)
  then show "length (attached st256 1) = 256" by simp
  show c0: "count (windows st256 ! 0) = 0" by (rule W0)
  show c1: "count (windows st256 ! 1) = 0" using C1 by simp
  show lg: "largest_window st256 = 0"
    unfolding largest_window_def L numeral_2_eq_2 using c0 c1 by simp
  have "reclaim_find 256 (buffered_msgs st256) 0 (windows st256 ! 0) = None"
    by (rule reclaim_find_none) (use sw1 in simp)
  moreover have "reclaim_largest (length (windows st256)) (windows st256) 0 = 0"
    using lg by (simp add: largest_window_def)
  ultimately show "buffer_reclaim st256 = (None, st256)"
    unfolding buffer_reclaim_def Let_def using c0 L by simp
  show "mcast_in_unique (roll_trickle_stat st256) = 256" by (rule st)
qed

text \<open>
  Claim C6, as the specification states it, does not hold on a node with 256 packet
  slots. \<^verbatim>\<open>count\<close> is a \<^verbatim>\<open>uint8_t\<close>: after start-up and the admission of the 256 values
  0 to 255 of one seed every slot is in use, all 256 packets are attached to window 1,
  and the count of that window has wrapped to 0. \<^verbatim>\<open>buffer_reclaim\<close> then selects
  window 0, whose count is 0 and not 1, finds no packet of it, frees nothing and
  returns none.
\<close>

theorem buffer_reclaim_count_wraps_counterexample:
  "roll_trickle_init cfg256 0 0 0 0 0 0 st_boot = Inr st256_init \<and>
   admit_run cfg256 256 st256_init = Inr st256 \<and>
   mcast_in_unique (roll_trickle_stat st256) = 256 \<and>
   buffer_allocate st256 = None \<and>
   length (attached st256 1) = 256 \<and>
   count (windows st256 ! 0) = 0 \<and> count (windows st256 ! 1) = 0 \<and>
   largest_window st256 = 0 \<and>
   count (windows st256 ! largest_window st256) \<noteq> 1 \<and>
   buffer_reclaim st256 = (None, st256)"
  using st256_init_reaches st256_reaches st256_facts by simp

text \<open>
  Claim C6, amended by the bound on the number of slots. \<^verbatim>\<open>buffer_reclaim\<close> is called by
  \<^verbatim>\<open>roll_trickle_accept\<close> when no packet slot is free. In every state of the engine
  with no free slot, on a node with at least one and at most 255 slots: the window it
  selects has the largest count of all windows; if that count is 1 it returns none and
  leaves the state as it is; otherwise the window holds at least two packets, and
  \<^verbatim>\<open>buffer_reclaim\<close> returns the slot of a used packet of that window whose sequence
  value is the lower bound of the window, and leaves the state in which this slot
  alone is freed, the count of the window is one less, and \<^verbatim>\<open>window_update_bounds\<close>
  has run.
\<close>

theorem buffer_reclaim_evicts_lower_bound:
  assumes "reachable cfg s" and "ROLL_TRICKLE_BUFF_NUM cfg \<le> 255"
    and "buffer_allocate s = None" and "0 < length (buffered_msgs s)"
  shows "largest_window s < length (windows s) \<and>
         (\<forall>i<length (windows s). count (windows s ! i) \<le> count (windows s ! largest_window s)) \<and>
         (count (windows s ! largest_window s) = 1 \<longrightarrow> buffer_reclaim s = (None, s)) \<and>
         (count (windows s ! largest_window s) \<noteq> 1 \<longrightarrow>
            2 \<le> length (attached s (largest_window s)) \<and>
            (\<exists>rv<length (buffered_msgs s).
               MCAST_PACKET_IS_USED (buffered_msgs s ! rv) \<and>
               sw (buffered_msgs s ! rv) = largest_window s \<and>
               uint (seq_val (buffered_msgs s ! rv)) =
                 sint (lower_bound (windows s ! largest_window s)) \<and>
               buffer_reclaim s =
                 (Some rv,
                  window_update_bounds
                    (s\<lparr>buffered_msgs :=
                         (buffered_msgs s)[rv := MCAST_PACKET_FREE (buffered_msgs s ! rv)],
                       windows :=
                         (windows s)[largest_window s :=
                           (windows s ! largest_window s)
                             \<lparr>count := count (windows s ! largest_window s) - 1\<rparr>]\<rparr>))))"
proof -
  let ?lg = "largest_window s"
  let ?w = "windows s ! ?lg"
  have inv: "table_inv s" by (rule reachable_table_inv [OF assms(1,2)])
  then have weak: "table_inv_weak s" by (simp add: table_inv_def)
  note f = buffer_reclaim_finds [OF inv assms(3,4), folded largest_window_def]
  have 1: "?lg < length (windows s)" by (rule f(1))
  have 2: "\<forall>i<length (windows s). count (windows s ! i) \<le> count ?w"
    using reclaim_largest_max [of "windows s" 0 "length (windows s)"]
    by (simp add: largest_window_def)
  have 3: "buffer_reclaim s = (None, s)" if "count ?w = 1"
    using that by (simp add: buffer_reclaim_def Let_def largest_window_def)
  have 4: "2 \<le> length (attached s ?lg) \<and>
            (\<exists>rv<length (buffered_msgs s).
               MCAST_PACKET_IS_USED (buffered_msgs s ! rv) \<and>
               sw (buffered_msgs s ! rv) = ?lg \<and>
               uint (seq_val (buffered_msgs s ! rv)) = sint (lower_bound ?w) \<and>
               buffer_reclaim s =
                 (Some rv,
                  window_update_bounds
                    (s\<lparr>buffered_msgs :=
                         (buffered_msgs s)[rv := MCAST_PACKET_FREE (buffered_msgs s ! rv)],
                       windows := (windows s)[?lg := ?w\<lparr>count := count ?w - 1\<rparr>]\<rparr>)))"
    if c: "count ?w \<noteq> 1"
  proof -
    have "unat (count ?w) \<noteq> 0" using f(2) by (simp add: unat_eq_zero)
    moreover have "unat (count ?w) \<noteq> 1" using c word_unat_eq_iff [of "count ?w" 1] by simp
    ultimately have "2 \<le> unat (count ?w)" by simp
    then have a: "2 \<le> length (attached s ?lg)" using table_inv_weakD(4) [OF weak 1] by simp
    from f(3) obtain rv where
      rf: "reclaim_find (length (buffered_msgs s)) (buffered_msgs s) ?lg ?w = Some rv" by blast
    note p = reclaim_find_Some [OF rf]
    have "buffer_reclaim s =
            (Some rv,
             window_update_bounds
               (s\<lparr>buffered_msgs :=
                    (buffered_msgs s)[rv := MCAST_PACKET_FREE (buffered_msgs s ! rv)],
                  windows := (windows s)[?lg := ?w\<lparr>count := count ?w - 1\<rparr>]\<rparr>))"
      using c rf by (simp add: buffer_reclaim_def Let_def largest_window_def)
    with a p show ?thesis by blast
  qed
  from 1 2 3 4 show ?thesis by blast
qed

theorem buffer_reclaim_evicts_lower_bound_witness:
  "reachable cfg0 st_two \<and> ROLL_TRICKLE_BUFF_NUM cfg0 \<le> 255 \<and>
   buffer_allocate st_two = None \<and> 0 < length (buffered_msgs st_two) \<and>
   largest_window st_two = 1 \<and> count (windows st_two ! 1) = 2 \<and>
   attached_seqs st_two 1 = [5, 8] \<and>
   (\<exists>rv<length (buffered_msgs st_two).
      seq_val (buffered_msgs st_two ! rv) = 5 \<and>
      buffer_reclaim st_two =
        (Some rv,
         window_update_bounds
           (st_two\<lparr>buffered_msgs :=
                     (buffered_msgs st_two)[rv := MCAST_PACKET_FREE (buffered_msgs st_two ! rv)],
                   windows :=
                     (windows st_two)[1 := (windows st_two ! 1)\<lparr>count := 1\<rparr>]\<rparr>))) \<and>
   reachable cfg0 st_full \<and> buffer_allocate st_full = None \<and>
   count (windows st_full ! largest_window st_full) = 1 \<and>
   buffer_reclaim st_full = (None, st_full)"
proof -
  have e: "ROLL_TRICKLE_BUFF_NUM cfg0 \<le> 255" "buffer_allocate st_two = None"
    "0 < length (buffered_msgs st_two)" "largest_window st_two = 1"
    "count (windows st_two ! 1) = 2" "attached_seqs st_two 1 = [5, 8]"
    "sint (lower_bound (windows st_two ! 1)) = 5"
    by code_simp+
  have 0: "reachable cfg0 st_init" by (rule reachable_init [OF init_reaches])
  have 1: "reachable cfg0 st_one" by (rule reachable_accept [OF 0 one_reaches])
  have 2: "reachable cfg0 st_two" by (rule reachable_accept [OF 1 two_reaches])
  note inst = buffer_reclaim_evicts_lower_bound [OF 2 e(1,2,3), unfolded e(4,5,7)]
  have u: "uint v = 5 \<Longrightarrow> v = 5" for v :: "16 word"
    using word_uint_eq_iff [of v 5] by simp
  from inst have "\<exists>rv<length (buffered_msgs st_two).
      seq_val (buffered_msgs st_two ! rv) = 5 \<and>
      buffer_reclaim st_two =
        (Some rv,
         window_update_bounds
           (st_two\<lparr>buffered_msgs :=
                     (buffered_msgs st_two)[rv := MCAST_PACKET_FREE (buffered_msgs st_two ! rv)],
                   windows :=
                     (windows st_two)[1 := (windows st_two ! 1)\<lparr>count := 1\<rparr>]\<rparr>))"
    using u by auto
  moreover have g: "buffer_allocate st_full = None" "0 < length (buffered_msgs st_full)"
    "count (windows st_full ! largest_window st_full) = 1"
    by code_simp+
  moreover have 3: "reachable cfg0 st_full" by (rule reachable_accept [OF 1 full_reaches])
  moreover have "buffer_reclaim st_full = (None, st_full)"
    using buffer_reclaim_evicts_lower_bound [OF 3 e(1) g(1,2)] g(3) by blast
  ultimately show ?thesis using 2 e by simp
qed

end
